theory Spec2Isabelle
  imports Complex_Main
begin

section \<open>Tokens (tokenizer.js)\<close>

text \<open>
  The tokenizer builds every token as \<^verbatim>\<open>new Token(type, value)\<close>: a \<^verbatim>\<open>STRING\<close> or
  \<^verbatim>\<open>QUOTED_STRING\<close> token always carries a string, a \<^verbatim>\<open>NUMBER\<close> token the result of
  \<^verbatim>\<open>parseInt\<close> on a run of decimal digits (a non-negative integer), and every other token
  the value \<^verbatim>\<open>null\<close>.  The datatype has one constructor per token type, with the value as
  its argument where the tokenizer supplies one.  The dotted arrow has no entry in
  \<^verbatim>\<open>TokenType\<close>; its type is the string literal \<^verbatim>\<open>'ARROW_DOTTED_TO'\<close>.

  Strings are lists of 8-bit characters: a JavaScript string whose code units are all
  below 256.
\<close>

datatype Token =
    BRACKET_OPEN
  | BRACKET_CLOSE
  | STRING string
  | NUMBER nat
  | QUOTED_STRING string
  | SUBSCRIPT_PREFIX
  | SUPERSCRIPT_PREFIX
  | ARROW_TO
  | ARROW_FROM
  | ARROW_BOTH
  | ARROW_DOTTED_TO

section \<open>Structural pre-check (syntaxtree.js)\<close>

text \<open>
  \<^verbatim>\<open>validateTokens\<close> throws one of four messages or returns \<^verbatim>\<open>null\<close>:
  \<^item> \<open>PhraseTooShort\<close>: \<^verbatim>\<open>'Phrase too short'\<close>;
  \<^item> \<open>MissingWrappingBrackets\<close>: \<^verbatim>\<open>'Phrase must start with [ and end with ]'\<close>;
  \<^item> \<open>BracketsOpen n\<close>: \<^verbatim>\<open>n + ' bracket(s) open ['\<close>;
  \<^item> \<open>TooManyClosed n\<close>: \<^verbatim>\<open>Math.abs(brackets) + ' too many closed bracket(s) ]'\<close>, with
    \<open>n\<close> the absolute value.
\<close>

datatype validation_error =
    PhraseTooShort
  | MissingWrappingBrackets
  | BracketsOpen int
  | TooManyClosed int

text \<open>The loop body of \<^verbatim>\<open>countOpenBrackets\<close>: two independent tests on one token.\<close>

definition countStep :: "Token \<Rightarrow> int \<Rightarrow> int" where
  "countStep token o1 =
     (let o2 = (if token = BRACKET_OPEN then o1 + 1 else o1)
      in if token = BRACKET_CLOSE then o2 - 1 else o2)"

definition countOpenBrackets :: "Token list \<Rightarrow> int" where
  "countOpenBrackets tokens = fold countStep tokens 0"

definition validateTokens :: "Token list \<Rightarrow> validation_error + unit" where
  "validateTokens tokens =
     (if length tokens < 3 then Inl PhraseTooShort
      else if tokens ! 0 \<noteq> BRACKET_OPEN \<or> tokens ! (length tokens - 1) \<noteq> BRACKET_CLOSE
        then Inl MissingWrappingBrackets
      else let brackets = countOpenBrackets tokens
        in if brackets > 0 then Inl (BracketsOpen brackets)
           else if brackets < 0 then Inl (TooManyClosed (abs brackets))
           else Inr ())"

text \<open>The signed count of opens minus closes, stated independently of the loop.\<close>

lemma fold_countStep:
  "fold countStep ts k =
     k + int (length (filter (\<lambda>t. t = BRACKET_OPEN) ts))
       - int (length (filter (\<lambda>t. t = BRACKET_CLOSE) ts))"
  by (induction ts arbitrary: k) (auto simp: countStep_def)

lemma countOpenBrackets_eq:
  "countOpenBrackets ts =
     int (length (filter (\<lambda>t. t = BRACKET_OPEN) ts))
       - int (length (filter (\<lambda>t. t = BRACKET_CLOSE) ts))"
  by (simp add: countOpenBrackets_def fold_countStep)

text \<open>
  The conditions the specification names, written without reference to the code: the
  number of opening and of closing brackets, and being wrapped in a bracket pair.
\<close>

definition opens :: "Token list \<Rightarrow> int" where
  "opens ts = int (length (filter (\<lambda>t. t = BRACKET_OPEN) ts))"

definition closes :: "Token list \<Rightarrow> int" where
  "closes ts = int (length (filter (\<lambda>t. t = BRACKET_CLOSE) ts))"

definition wrapped :: "Token list \<Rightarrow> bool" where
  "wrapped ts = (hd ts = BRACKET_OPEN \<and> last ts = BRACKET_CLOSE)"

lemma validateTokens_unfold:
  "validateTokens ts =
     (if length ts < 3 then Inl PhraseTooShort
      else if \<not> wrapped ts then Inl MissingWrappingBrackets
      else if opens ts > closes ts then Inl (BracketsOpen (opens ts - closes ts))
      else if opens ts < closes ts then Inl (TooManyClosed (closes ts - opens ts))
      else Inr ())"
proof (cases "length ts < 3")
  case True
  then show ?thesis by (simp add: validateTokens_def)
next
  case False
  then have ne: "ts \<noteq> []" by auto
  have h: "ts ! 0 = hd ts" using ne by (simp add: hd_conv_nth)
  have l: "ts ! (length ts - Suc 0) = last ts" using ne by (simp add: last_conv_nth)
  show ?thesis using False
    by (simp add: validateTokens_def h l wrapped_def Let_def countOpenBrackets_eq
        opens_def closes_def)
qed

text \<open>
  Claim C9, as stated, says that every sequence with a positive final count is rejected
  with the over-open message.  The checks run in a fixed order, so a sequence that is too
  short or badly wrapped never reaches the count: \<^verbatim>\<open>[ [ A\<close> has final count 2 and is
  rejected with the wrapping message.
\<close>

theorem validateTokens_positive_count_counterexample:
  "0 < countOpenBrackets [BRACKET_OPEN, BRACKET_OPEN, STRING ''A''] \<and>
   validateTokens [BRACKET_OPEN, BRACKET_OPEN, STRING ''A''] = Inl MissingWrappingBrackets \<and>
   validateTokens [BRACKET_OPEN, BRACKET_OPEN, STRING ''A'']
     \<noteq> Inl (BracketsOpen (countOpenBrackets [BRACKET_OPEN, BRACKET_OPEN, STRING ''A'']))"
  by (simp add: validateTokens_def countOpenBrackets_def countStep_def)

text \<open>
  Claim C9, amended: the pre-check accepts exactly the sequences of at least three tokens
  that start with a bracket-open, end with a bracket-close and have signed count 0; a
  sequence of fewer than three tokens gets the phrase-too-short error; a sequence of at
  least three tokens with bad wrapping gets the missing-wrapping-brackets error; and among
  the sequences that pass both of these checks, a positive final count gets the over-open
  message carrying the count and a negative one the over-close message carrying its
  absolute value.
\<close>

theorem validateTokens_cases:
  "(validateTokens ts = Inr () \<longleftrightarrow>
      3 \<le> length ts \<and> wrapped ts \<and> opens ts - closes ts = 0) \<and>
   (validateTokens ts = Inl PhraseTooShort \<longleftrightarrow> length ts < 3) \<and>
   (validateTokens ts = Inl MissingWrappingBrackets \<longleftrightarrow> 3 \<le> length ts \<and> \<not> wrapped ts) \<and>
   (validateTokens ts = Inl (BracketsOpen n) \<longleftrightarrow>
      3 \<le> length ts \<and> wrapped ts \<and> 0 < opens ts - closes ts \<and> n = opens ts - closes ts) \<and>
   (validateTokens ts = Inl (TooManyClosed n) \<longleftrightarrow>
      3 \<le> length ts \<and> wrapped ts \<and> opens ts - closes ts < 0 \<and> n = closes ts - opens ts)"
  unfolding validateTokens_unfold by auto

theorem validateTokens_cases_witness:
  "validateTokens [BRACKET_OPEN, STRING ''A'', BRACKET_CLOSE] = Inr () \<and>
   validateTokens [BRACKET_OPEN, STRING ''A'', BRACKET_OPEN, BRACKET_CLOSE]
     = Inl (BracketsOpen 1) \<and>
   validateTokens [BRACKET_OPEN, STRING ''A'', BRACKET_CLOSE, BRACKET_CLOSE]
     = Inl (TooManyClosed 1)"
  using validateTokens_cases [of "[BRACKET_OPEN, STRING ''A'', BRACKET_CLOSE]"]
    validateTokens_cases [of "[BRACKET_OPEN, STRING ''A'', BRACKET_OPEN, BRACKET_CLOSE]" 1]
    validateTokens_cases [of "[BRACKET_OPEN, STRING ''A'', BRACKET_CLOSE, BRACKET_CLOSE]" 1]
  by (simp add: wrapped_def opens_def closes_def)

section \<open>JavaScript values used by the parser and the layout\<close>

subsection \<open>Strings and the regular expressions of the source\<close>

text \<open>
  White space as \<^verbatim>\<open>\s\<close> and \<^verbatim>\<open>String.prototype.trim\<close> see it, among the characters
  below 256: tab, line feed, vertical tab, form feed, carriage return, space and the
  no-break space.  The line terminators, which \<^verbatim>\<open>.\<close> does not match, are line feed and
  carriage return.
\<close>

definition isSpace :: "char \<Rightarrow> bool" where
  "isSpace c = (c \<in> set [CHR 0x09, CHR 0x0A, CHR 0x0B, CHR 0x0C, CHR 0x0D, CHR 0x20, CHR 0xA0])"

definition isLineTerminator :: "char \<Rightarrow> bool" where
  "isLineTerminator c = (c = CHR 0x0A \<or> c = CHR 0x0D)"

definition noLineTerminator :: "string \<Rightarrow> bool" where
  "noLineTerminator s = (\<not> list_ex isLineTerminator s)"

definition trim :: "string \<Rightarrow> string" where
  "trim s = rev (dropWhile isSpace (rev (dropWhile isSpace s)))"

text \<open>JavaScript truthiness of a value that is a string, \<^verbatim>\<open>null\<close> or \<^verbatim>\<open>undefined\<close>.\<close>

definition truthy :: "string option \<Rightarrow> bool" where
  "truthy v = (case v of None \<Rightarrow> False | Some s \<Rightarrow> s \<noteq> [])"

text \<open>
  The regular expression of \<^verbatim>\<open>drawableFromNode\<close> (tree.js, line 317).  Between \<^verbatim>\<open>^\<close> and
  the dot, and between the star and \<^verbatim>\<open>$\<close>, the source holds the character U+007F
  (delete), which a terminal does not show: the pattern is \<^verbatim>\<open>/^\x7F.*\x7F$/\<close>.  It matches a
  string that starts with that character, ends with another one, and has no line
  terminator (without the \<^verbatim>\<open>s\<close> and \<^verbatim>\<open>m\<close> flags the dot stops at a line terminator and
  \<^verbatim>\<open>$\<close> is the end of the input).
\<close>

definition isDelWrapped :: "string \<Rightarrow> bool" where
  "isDelWrapped s =
     (2 \<le> length s \<and> hd s = CHR 0x7F \<and> last s = CHR 0x7F \<and> noLineTerminator s)"

text \<open>\<^verbatim>\<open>/^\+/.test(s)\<close>.\<close>

definition isFeature :: "string \<Rightarrow> bool" where
  "isFeature s = (case s of [] \<Rightarrow> False | c # _ \<Rightarrow> c = CHR ''+'')"

text \<open>\<^verbatim>\<open>/^\{.*\}$/.test(s)\<close>: an opening brace first, a closing brace last, and no
  line terminator in between.\<close>

definition isCaseText :: "string \<Rightarrow> bool" where
  "isCaseText s = (2 \<le> length s \<and> hd s = CHR ''{'' \<and> last s = CHR ''}'' \<and> noLineTerminator s)"

text \<open>
  \<^verbatim>\<open>s.match(/^(.*)\s*(\{.*\})$/)\<close>.  A match splits \<open>s\<close> into a first group without line
  terminator, a run of white space and a brace group reaching the end.  The brace group
  starts with a character that is not white space, so the white-space run is the whole run
  found after the first group; the first group is greedy, so the match the engine reports
  is the one with the longest first group.  \<open>matchCaseAt s i\<close> is the match with a first
  group of \<open>i\<close> characters, \<open>matchCase\<close> tries the lengths from the longest down.
\<close>

definition matchCaseAt :: "string \<Rightarrow> nat \<Rightarrow> (string \<times> string) option" where
  "matchCaseAt s i =
     (let g1 = take i s; g2 = dropWhile isSpace (drop i s)
      in if noLineTerminator g1 \<and> isCaseText g2 then Some (g1, g2) else None)"

fun firstMatch :: "string \<Rightarrow> nat list \<Rightarrow> (string \<times> string) option" where
  "firstMatch s [] = None"
| "firstMatch s (i # is) = (case matchCaseAt s i of Some m \<Rightarrow> Some m | None \<Rightarrow> firstMatch s is)"

definition matchCase :: "string \<Rightarrow> (string \<times> string) option" where
  "matchCase s = firstMatch s (rev [0 ..< Suc (length s)])"

text \<open>
  \<^verbatim>\<open>s.replace(/\s*\{.*\}$/, '')\<close>: the leftmost position from which white space and then a
  brace group reach the end of the string; the match is removed, so the result is the
  text before that position.  Without a match the string is returned as it is.
\<close>

fun stripTrailingCase :: "string \<Rightarrow> string" where
  "stripTrailingCase [] = []"
| "stripTrailingCase (c # cs) =
     (if isCaseText (dropWhile isSpace (c # cs)) then [] else c # stripTrailingCase cs)"

text \<open>\<^verbatim>\<open>String(s).split(/\\n|\n/).length\<close>: one more than the number of separators, a
  separator being a backslash followed by \<^verbatim>\<open>n\<close>, or a line feed.\<close>

fun countSeparators :: "string \<Rightarrow> nat" where
  "countSeparators [] = 0"
| "countSeparators [c] = (if c = CHR 0x0A then 1 else 0)"
| "countSeparators (c # d # cs) =
     (if c = CHR 0x5C \<and> d = CHR ''n'' then Suc (countSeparators cs)
      else if c = CHR 0x0A then Suc (countSeparators (d # cs))
      else countSeparators (d # cs))"

definition labelLines :: "string \<Rightarrow> nat" where
  "labelLines s = Suc (countSeparators s)"

text \<open>\<^verbatim>\<open>'' + n\<close> for a non-negative integer \<open>n\<close>: its decimal digits.\<close>

definition digit :: "nat \<Rightarrow> char" where
  "digit d = ''0123456789'' ! d"

function showNat :: "nat \<Rightarrow> string" where
  "showNat n = (if n < 10 then [digit n] else showNat (n div 10) @ [digit (n mod 10)])"
  by pat_completeness auto
termination
  by (relation "measure id") auto

declare showNat.simps [simp del]

text \<open>\<^verbatim>\<open>xs.join(', ')\<close>.\<close>

fun joinWith :: "string \<Rightarrow> string list \<Rightarrow> string" where
  "joinWith sep [] = []"
| "joinWith sep [x] = x"
| "joinWith sep (x # y # ys) = x @ sep @ joinWith sep (y # ys)"

subsection \<open>Numbers\<close>

text \<open>
  The layout computes with JavaScript numbers.  They are modelled as the real numbers
  (no rounding) together with the three special values a layout can produce:
  \<^verbatim>\<open>Math.min()\<close> of no argument is \<^verbatim>\<open>Infinity\<close>, and multiplying it yields
  \<^verbatim>\<open>Infinity\<close>, \<^verbatim>\<open>-Infinity\<close> or \<^verbatim>\<open>NaN\<close>.  Widths and horizontal offsets are sums and
  maxima of text widths and stay finite; they are plain reals.
\<close>

datatype jsnum = Fin real | PInf | NInf | NaN

fun jsPlus :: "jsnum \<Rightarrow> real \<Rightarrow> jsnum" where
  "jsPlus (Fin a) b = Fin (a + b)"
| "jsPlus PInf b = PInf"
| "jsPlus NInf b = NInf"
| "jsPlus NaN b = NaN"

fun jsTimes :: "jsnum \<Rightarrow> real \<Rightarrow> jsnum" where
  "jsTimes (Fin a) b = Fin (a * b)"
| "jsTimes PInf b = (if 0 < b then PInf else if b < 0 then NInf else NaN)"
| "jsTimes NInf b = (if 0 < b then NInf else if b < 0 then PInf else NaN)"
| "jsTimes NaN b = NaN"

fun mathMax :: "jsnum \<Rightarrow> jsnum \<Rightarrow> jsnum" where
  "mathMax NaN y = NaN"
| "mathMax x NaN = NaN"
| "mathMax PInf y = PInf"
| "mathMax x PInf = PInf"
| "mathMax NInf y = y"
| "mathMax x NInf = x"
| "mathMax (Fin a) (Fin b) = Fin (max a b)"

fun mathMin :: "jsnum \<Rightarrow> jsnum \<Rightarrow> jsnum" where
  "mathMin NaN y = NaN"
| "mathMin x NaN = NaN"
| "mathMin NInf y = NInf"
| "mathMin x NInf = NInf"
| "mathMin PInf y = y"
| "mathMin x PInf = x"
| "mathMin (Fin a) (Fin b) = Fin (min a b)"

text \<open>\<^verbatim>\<open>Math.min(...xs)\<close>; with no argument the result is \<^verbatim>\<open>Infinity\<close>.\<close>

definition mathMinList :: "jsnum list \<Rightarrow> jsnum" where
  "mathMinList xs = foldl mathMin PInf xs"

text \<open>\<^verbatim>\<open>x >= 0\<close>.\<close>

fun jsGeZero :: "jsnum \<Rightarrow> bool" where
  "jsGeZero (Fin a) = (0 \<le> a)"
| "jsGeZero PInf = True"
| "jsGeZero NInf = False"
| "jsGeZero NaN = False"

section \<open>The syntax tree (parser.js)\<close>

text \<open>
  An arrow directive as \<^verbatim>\<open>parseValue\<close> builds it:
  \<^verbatim>\<open>{ends: {to, from}, target, label, dotted}\<close>.
\<close>

record ArrowDirective =
  dir_to :: bool
  dir_from :: bool
  dir_target :: nat
  dir_label :: "string option"
  dir_dotted :: bool

text \<open>
  The fields of a \<^verbatim>\<open>NODE\<close> object and of a \<^verbatim>\<open>VALUE\<close> object.  \<^verbatim>\<open>parseValue\<close> stores
  \<^verbatim>\<open>undefined\<close> for an empty list of arrows and the layout reads \<^verbatim>\<open>undefined\<close> as the
  empty list, so \<open>v_arrows\<close> is a list whose empty value stands for \<^verbatim>\<open>undefined\<close>.
\<close>

record NodeFields =
  n_label :: string
  n_subscript :: "string option"
  n_superscript :: "string option"
  n_features :: "string list"
  n_caseFeature :: "string option"

record ValueFields =
  v_label :: string
  v_subscript :: "string option"
  v_superscript :: "string option"
  v_arrows :: "ArrowDirective list"
  v_caseFeature :: "string option"

text \<open>The tagged union of \<^verbatim>\<open>NodeType\<close>; \<^verbatim>\<open>ROOT\<close> and \<^verbatim>\<open>NODE\<close> carry \<^verbatim>\<open>values\<close>.\<close>

datatype SyntaxNode =
    ROOT "SyntaxNode list"
  | NODE NodeFields "SyntaxNode list"
  | VALUE ValueFields

text \<open>Reading a property of a node object; a property the object lacks is
  \<^verbatim>\<open>undefined\<close> (\<open>None\<close>, or the empty list where the reader treats both alike).\<close>

fun node_label :: "SyntaxNode \<Rightarrow> string" where
  "node_label (ROOT vs) = ''__ROOT__''"
| "node_label (NODE f vs) = n_label f"
| "node_label (VALUE v) = v_label v"

fun node_subscript :: "SyntaxNode \<Rightarrow> string option" where
  "node_subscript (ROOT vs) = None"
| "node_subscript (NODE f vs) = n_subscript f"
| "node_subscript (VALUE v) = v_subscript v"

fun node_superscript :: "SyntaxNode \<Rightarrow> string option" where
  "node_superscript (ROOT vs) = None"
| "node_superscript (NODE f vs) = n_superscript f"
| "node_superscript (VALUE v) = v_superscript v"

fun node_features :: "SyntaxNode \<Rightarrow> string list" where
  "node_features (ROOT vs) = []"
| "node_features (NODE f vs) = n_features f"
| "node_features (VALUE v) = []"

fun node_caseFeature :: "SyntaxNode \<Rightarrow> string option" where
  "node_caseFeature (ROOT vs) = None"
| "node_caseFeature (NODE f vs) = n_caseFeature f"
| "node_caseFeature (VALUE v) = v_caseFeature v"

fun node_arrows :: "SyntaxNode \<Rightarrow> ArrowDirective list" where
  "node_arrows (ROOT vs) = []"
| "node_arrows (NODE f vs) = []"
| "node_arrows (VALUE v) = v_arrows v"

fun isROOT :: "SyntaxNode \<Rightarrow> bool" where
  "isROOT (ROOT vs) = True"
| "isROOT (NODE f vs) = False"
| "isROOT (VALUE v) = False"

fun isNODE :: "SyntaxNode \<Rightarrow> bool" where
  "isNODE (ROOT vs) = False"
| "isNODE (NODE f vs) = True"
| "isNODE (VALUE v) = False"

fun isVALUE :: "SyntaxNode \<Rightarrow> bool" where
  "isVALUE (ROOT vs) = False"
| "isVALUE (NODE f vs) = False"
| "isVALUE (VALUE v) = True"

text \<open>\<^verbatim>\<open>{ ...node, label: l }\<close>: a copy of the node with another label.\<close>

fun withLabel :: "SyntaxNode \<Rightarrow> string \<Rightarrow> SyntaxNode" where
  "withLabel (ROOT vs) l = ROOT vs"
| "withLabel (NODE f vs) l = NODE (f\<lparr>n_label := l\<rparr>) vs"
| "withLabel (VALUE v) l = VALUE (v\<lparr>v_label := l\<rparr>)"

section \<open>Layout (tree.js)\<close>

subsection \<open>The drawing surface and the drawable tree\<close>

text \<open>
  The canvas is outside the repository; the layout uses its text measurement and its font
  size, which are parameters here.
\<close>

record Canvas =
  textWidth :: "string \<Rightarrow> real"
  canvas_fontsize :: real

definition NODE_PADDING :: real where
  "NODE_PADDING = 20"

text \<open>
  The fields of a drawable other than its children.  \<open>top_y\<close> and \<open>left_x\<close> are the
  properties \<^verbatim>\<open>top\<close> and \<^verbatim>\<open>left\<close>, which a drawable gets in the position phase; until
  then they are \<^verbatim>\<open>undefined\<close> and never read, and the model holds 0 there.
\<close>

record DrawableFields =
  label :: string
  subscript :: "string option"
  superscript :: "string option"
  width :: real
  depth :: jsnum
  is_leaf :: bool
  arrows :: "ArrowDirective list"
  features :: "string list"
  caseFeature :: "string option"
  top_y :: jsnum
  left_x :: real

datatype Drawable = Drawable DrawableFields "Drawable list"

fun info :: "Drawable \<Rightarrow> DrawableFields" where
  "info (Drawable f cs) = f"

fun children :: "Drawable \<Rightarrow> Drawable list" where
  "children (Drawable f cs) = cs"

subsection \<open>Build phase\<close>

text \<open>
  The ellipsis appended to a long case text, U+2026: one character of the string, so the
  cut text has 102 characters.  The characters of this theory end at 255; the ellipsis is
  represented by the single character \<open>0x85\<close>, and it is only ever measured.
\<close>

definition ellipsis :: string where
  "ellipsis = [CHR 0x85]"

text \<open>\<^verbatim>\<open>'[' + caseFeature.slice(1, -1) + ']'\<close>, cut after 100 characters.\<close>

definition caseText :: "string \<Rightarrow> string" where
  "caseText cf =
     (let t = ''['' @ butlast (tl cf) @ '']''
      in if length t > 100 then take 100 t @ ellipsis @ '']'' else t)"

text \<open>The part of \<^verbatim>\<open>getNodeWidth\<close> before its last statement: the width the node's own
  texts need.\<close>

definition labelWidth :: "Canvas \<Rightarrow> SyntaxNode \<Rightarrow> real" where
  "labelWidth canvas node =
     (let w0 = (if \<not> isROOT node then textWidth canvas (node_label node) + NODE_PADDING else 0);
          w1 = (if truthy (node_subscript node)
                  then w0 + textWidth canvas (the (node_subscript node)) * 3 / 4 * 2
                else if truthy (node_superscript node)
                  then w0 + textWidth canvas (the (node_superscript node)) * 3 / 4 * 2
                else w0);
          w2 = (if length (node_features node) > 0
                  then max w1 (textWidth canvas (''['' @ joinWith '', '' (node_features node) @ '']''))
                else w1)
      in if isVALUE node \<and> truthy (node_caseFeature node)
           then max w2 (textWidth canvas (caseText (the (node_caseFeature node))) * 0.7 + NODE_PADDING)
         else w2)"

fun getNodeWidth :: "Canvas \<Rightarrow> SyntaxNode \<Rightarrow> real"
  and getChildWidth :: "Canvas \<Rightarrow> SyntaxNode \<Rightarrow> real"
  and sumNodeWidths :: "Canvas \<Rightarrow> real \<Rightarrow> SyntaxNode list \<Rightarrow> real" where
  "getNodeWidth canvas (VALUE v) = labelWidth canvas (VALUE v)"
| "getNodeWidth canvas (NODE f vs) =
     max (labelWidth canvas (NODE f vs)) (getChildWidth canvas (NODE f vs))"
| "getNodeWidth canvas (ROOT vs) =
     max (labelWidth canvas (ROOT vs)) (getChildWidth canvas (ROOT vs))"
| "getChildWidth canvas (VALUE v) = 0"
| "getChildWidth canvas (NODE f vs) = sumNodeWidths canvas 0 vs"
| "getChildWidth canvas (ROOT vs) = sumNodeWidths canvas 0 vs"
| "sumNodeWidths canvas acc [] = acc"
| "sumNodeWidths canvas acc (child # rest) =
     sumNodeWidths canvas (acc + getNodeWidth canvas child) rest"

text \<open>
  The object literal of \<^verbatim>\<open>drawableFromNode\<close>, before the children are added.  The test
  \<^verbatim>\<open>isLeaf && node.caseFeature && node.label && !/^\x7F.*\x7F$/.test(node.label)\<close> is
  \<open>guard\<close>.
\<close>

definition caseGuard :: "SyntaxNode \<Rightarrow> bool \<Rightarrow> bool" where
  "caseGuard node isLeaf =
     (isLeaf \<and> truthy (node_caseFeature node) \<and> node_label node \<noteq> []
      \<and> \<not> isDelWrapped (node_label node))"

definition drawableFields :: "Canvas \<Rightarrow> SyntaxNode \<Rightarrow> jsnum \<Rightarrow> bool \<Rightarrow> DrawableFields" where
  "drawableFields canvas node depth0 forceLeaf =
     (let isLeaf = (if forceLeaf then \<not> isROOT node \<and> \<not> isNODE node else isVALUE node);
          guard = caseGuard node isLeaf;
          caseFeature0 = (if guard then node_caseFeature node else None);
          drawableLabel =
            (if guard then trim (stripTrailingCase (node_label node)) else node_label node)
      in \<lparr> label = drawableLabel,
           subscript = node_subscript node,
           superscript = node_superscript node,
           width = getNodeWidth canvas (withLabel node drawableLabel),
           depth = depth0,
           is_leaf = isLeaf,
           arrows = node_arrows node,
           features = node_features node,
           caseFeature = caseFeature0,
           top_y = Fin 0,
           left_x = 0 \<rparr>)"

fun drawableFromNode :: "Canvas \<Rightarrow> SyntaxNode \<Rightarrow> jsnum \<Rightarrow> bool \<Rightarrow> Drawable" where
  "drawableFromNode canvas (VALUE v) depth0 forceLeaf =
     Drawable (drawableFields canvas (VALUE v) depth0 forceLeaf) []"
| "drawableFromNode canvas (NODE f vs) depth0 forceLeaf =
     (let d = drawableFields canvas (NODE f vs) depth0 forceLeaf;
          cs = map (\<lambda>child. drawableFromNode canvas child (jsPlus depth0 1) False) vs
      in Drawable (d\<lparr>width := getNodeWidth canvas (withLabel (NODE f vs) (label d))\<rparr>) cs)"
| "drawableFromNode canvas (ROOT vs) depth0 forceLeaf =
     (let d = drawableFields canvas (ROOT vs) depth0 forceLeaf;
          cs = map (\<lambda>child. drawableFromNode canvas child (jsPlus depth0 1) False) vs
      in Drawable (d\<lparr>width := getNodeWidth canvas (withLabel (ROOT vs) (label d))\<rparr>) cs)"

subsection \<open>Alignment\<close>

fun getMaxDepth :: "Drawable \<Rightarrow> jsnum" where
  "getMaxDepth (Drawable f cs) =
     foldl (\<lambda>m child. mathMax m (getMaxDepth child)) (depth f) cs"

fun moveLeafsToBottom :: "Drawable \<Rightarrow> jsnum \<Rightarrow> Drawable" where
  "moveLeafsToBottom (Drawable f cs) bottom0 =
     Drawable (if is_leaf f then f\<lparr>depth := bottom0\<rparr> else f)
       (map (\<lambda>child. moveLeafsToBottom child bottom0) cs)"

fun moveParentsDown :: "Drawable \<Rightarrow> Drawable" where
  "moveParentsDown (Drawable f cs) =
     (if is_leaf f then Drawable f cs
      else let cs' = map moveParentsDown cs
        in if depth f \<noteq> Fin 0
             then Drawable (f\<lparr>depth := mathMinList (map (\<lambda>c. jsPlus (depth (info c)) (- 1)) cs')\<rparr>) cs'
           else Drawable f cs')"

subsection \<open>Automatic subscripts\<close>

text \<open>
  A \<^verbatim>\<open>Map\<close> from labels to counts, as the list of its entries in insertion order.
  \<^verbatim>\<open>map.set\<close> replaces the value of a key the map has and appends a new key.
\<close>

type_synonym counts = "(string \<times> nat) list"

fun mapSet :: "counts \<Rightarrow> string \<Rightarrow> nat \<Rightarrow> counts" where
  "mapSet [] key v = [(key, v)]"
| "mapSet ((k, w) # m) key v = (if k = key then (k, v) # m else (k, w) # mapSet m key v)"

text \<open>\<^verbatim>\<open>map.get(key) || 0\<close>.\<close>

definition mapGetOr0 :: "counts \<Rightarrow> string \<Rightarrow> nat" where
  "mapGetOr0 m key = (case map_of m key of None \<Rightarrow> 0 | Some v \<Rightarrow> v)"

definition mapInc :: "counts \<Rightarrow> string \<Rightarrow> counts" where
  "mapInc m key = mapSet m key (mapGetOr0 m key + 1)"

definition mapMerge :: "counts \<Rightarrow> counts \<Rightarrow> counts" where
  "mapMerge a b = foldl (\<lambda>a (key, v). mapSet a key (mapGetOr0 a key + v)) a b"

fun countNodes :: "Drawable \<Rightarrow> counts" where
  "countNodes (Drawable f cs) =
     (if is_leaf f then []
      else foldl (\<lambda>m child. mapMerge m (countNodes child))
             (if \<not> truthy (subscript f) then mapInc [] (label f) else []) cs)"

fun assignSubscripts :: "Drawable \<Rightarrow> string list \<Rightarrow> counts \<Rightarrow> Drawable \<times> counts"
  and assignSubscriptsEach :: "Drawable list \<Rightarrow> string list \<Rightarrow> counts \<Rightarrow> Drawable list \<times> counts"
  where
  "assignSubscripts (Drawable f cs) keys tally =
     (let (f', tally') =
            (if \<not> is_leaf f \<and> \<not> truthy (subscript f) \<and> \<not> truthy (superscript f)
                \<and> label f \<in> set keys
             then let t = mapInc tally (label f)
                  in (f\<lparr>subscript := Some (showNat (mapGetOr0 t (label f)))\<rparr>, t)
             else (f, tally));
          (cs', tally'') = assignSubscriptsEach cs keys tally'
      in (Drawable f' cs', tally''))"
| "assignSubscriptsEach [] keys tally = ([], tally)"
| "assignSubscriptsEach (child # rest) keys tally =
     (let (child', tally') = assignSubscripts child keys tally;
          (rest', tally'') = assignSubscriptsEach rest keys tally'
      in (child' # rest', tally''))"

definition calculateAutoSubscript :: "Drawable \<Rightarrow> Drawable" where
  "calculateAutoSubscript drawables =
     (let m = filter (\<lambda>(key, v). v \<noteq> 1) (countNodes drawables)
      in fst (assignSubscripts drawables (map fst m) []))"

subsection \<open>Position phase\<close>

fun getDrawableChildWidth :: "Drawable \<Rightarrow> real" where
  "getDrawableChildWidth (Drawable f cs) = foldl (\<lambda>s child. s + width (info child)) 0 cs"

text \<open>
  \<^verbatim>\<open>calculateDrawablePositions\<close> returns \<^verbatim>\<open>hasArrow\<close> and writes \<^verbatim>\<open>top\<close>, \<^verbatim>\<open>left\<close> and
  \<^verbatim>\<open>width\<close> of every descendant; the model returns the flag and the drawable as updated.
  \<open>positionChildren\<close> is the \<^verbatim>\<open>forEach\<close> loop, carrying \<^verbatim>\<open>offset\<close> and \<^verbatim>\<open>hasArrow\<close>.
\<close>

fun calculateDrawablePositions :: "Canvas \<Rightarrow> Drawable \<Rightarrow> real \<Rightarrow> real \<Rightarrow> bool \<times> Drawable"
  and positionChildren ::
    "Canvas \<Rightarrow> real \<Rightarrow> real \<Rightarrow> real \<Rightarrow> Drawable list \<Rightarrow> real \<Rightarrow> bool \<Rightarrow> bool \<times> Drawable list"
  where
  "calculateDrawablePositions canvas (Drawable f cs) vscaler parent_offset =
     (let hasArrow = (length (arrows f) > 0);
          scale = (if jsGeZero (depth f)
                   then (if width f > getDrawableChildWidth (Drawable f cs) then 1 else 1)
                   else 1);
          (hasArrow', cs') = positionChildren canvas vscaler parent_offset scale cs 0 hasArrow
      in (hasArrow', Drawable f cs'))"
| "positionChildren canvas vscaler parent_offset scale [] offset hasArrow = (hasArrow, [])"
| "positionChildren canvas vscaler parent_offset scale (Drawable cf ccs # rest) offset hasArrow =
     (let cf' = cf\<lparr> top_y := jsPlus (jsTimes (depth cf) (canvas_fontsize canvas * 3 * vscaler))
                                (NODE_PADDING / 2),
                    left_x := offset + parent_offset,
                    width := width cf * scale \<rparr>;
          (child_has_arrow, child') =
            calculateDrawablePositions canvas (Drawable cf' ccs) vscaler (left_x cf');
          (hasArrow', rest') =
            positionChildren canvas vscaler parent_offset scale rest (offset + width cf')
              (hasArrow \<or> child_has_arrow)
      in (hasArrow', child' # rest'))"

subsection \<open>Arrow routing\<close>

record Arrow =
  from_x :: real
  from_y :: jsnum
  to_x :: real
  to_y :: jsnum
  bottom :: jsnum
  ends_to :: bool
  ends_from :: bool
  arrow_label :: "string option"
  dotted :: bool

text \<open>The class \<^verbatim>\<open>ArrowSet\<close>: its constructor, \<^verbatim>\<open>add\<close> and \<^verbatim>\<open>concatenate\<close>.\<close>

record ArrowSet =
  set_arrows :: "Arrow list"
  maxBottom :: jsnum

definition newArrowSet :: ArrowSet where
  "newArrowSet = \<lparr> set_arrows = [], maxBottom = Fin 0 \<rparr>"

definition add :: "ArrowSet \<Rightarrow> Arrow \<Rightarrow> ArrowSet" where
  "add this arrow =
     \<lparr> set_arrows = set_arrows this @ [arrow],
       maxBottom = mathMax (maxBottom this) (bottom arrow) \<rparr>"

definition concatenate :: "ArrowSet \<Rightarrow> ArrowSet \<Rightarrow> ArrowSet" where
  "concatenate this arrowSet =
     \<lparr> set_arrows = set_arrows this @ set_arrows arrowSet,
       maxBottom = mathMax (maxBottom this) (maxBottom arrowSet) \<rparr>"

text \<open>
  \<^verbatim>\<open>findTargetLeaf\<close> returns the count and the target; \<^verbatim>\<open>++count\<close> is evaluated only
  for a leaf.  \<open>findTargetLeafEach\<close> is its \<^verbatim>\<open>for\<close> loop over the children.
\<close>

fun findTargetLeaf :: "Drawable \<Rightarrow> nat \<Rightarrow> nat \<Rightarrow> nat \<times> Drawable option"
  and findTargetLeafEach :: "Drawable list \<Rightarrow> nat \<Rightarrow> nat \<Rightarrow> nat \<times> Drawable option"
  where
  "findTargetLeaf (Drawable f cs) arrow_idx count0 =
     (let count1 = (if is_leaf f then count0 + 1 else count0)
      in if is_leaf f \<and> count1 = arrow_idx then (count1, Some (Drawable f cs))
         else findTargetLeafEach cs arrow_idx count1)"
| "findTargetLeafEach [] arrow_idx count0 = (count0, None)"
| "findTargetLeafEach (child # rest) arrow_idx count0 =
     (case findTargetLeaf child arrow_idx count0 of
        (count1, Some target) \<Rightarrow> (count1, Some target)
      | (count1, None) \<Rightarrow> findTargetLeafEach rest arrow_idx count1)"

definition findTarget :: "Drawable \<Rightarrow> nat \<Rightarrow> Drawable option" where
  "findTarget drawable arrow_idx = snd (findTargetLeaf drawable arrow_idx 0)"

definition getDrawableCenter :: "DrawableFields \<Rightarrow> real" where
  "getDrawableCenter f = left_x f + width f / 2"

fun findMaxDepthBetween :: "Drawable \<Rightarrow> real \<Rightarrow> real \<Rightarrow> jsnum \<Rightarrow> jsnum" where
  "findMaxDepthBetween (Drawable f cs) lo hi max_y0 =
     (let max_y1 = foldl (\<lambda>max_y child. mathMax (findMaxDepthBetween child lo hi max_y) max_y)
                     max_y0 cs
      in if is_leaf f \<and> lo \<le> left_x f \<and> left_x f \<le> hi
           then mathMax (top_y f) max_y1
         else max_y1)"

text \<open>The body of the loop over \<^verbatim>\<open>drawable.arrows\<close> for a directive whose target was
  found: the routed arrow.\<close>

definition anchorY :: "DrawableFields \<Rightarrow> real \<Rightarrow> jsnum" where
  "anchorY f fontsize =
     jsPlus (jsPlus (jsPlus (top_y f) (real (labelLines (label f)) * fontsize * 1.1)) 2)
       (if truthy (caseFeature f) then fontsize * 0.7 + 2 else 0)"

definition routeArrow :: "Drawable \<Rightarrow> DrawableFields \<Rightarrow> real \<Rightarrow> ArrowDirective \<Rightarrow> DrawableFields \<Rightarrow> Arrow"
  where
  "routeArrow root0 f fontsize arrowObj target =
     \<lparr> from_x = getDrawableCenter f,
       from_y = anchorY f fontsize,
       to_x = getDrawableCenter target,
       to_y = anchorY target fontsize,
       bottom = jsTimes (findMaxDepthBetween root0 (min (left_x f) (left_x target))
                           (max (left_x f) (left_x target)) (Fin 0)) 1.4,
       ends_to = dir_to arrowObj,
       ends_from = dir_from arrowObj,
       arrow_label = (if truthy (dir_label arrowObj) then dir_label arrowObj else None),
       dotted = dir_dotted arrowObj \<rparr>"

definition routeStep :: "Drawable \<Rightarrow> DrawableFields \<Rightarrow> real \<Rightarrow> ArrowSet \<Rightarrow> ArrowDirective \<Rightarrow> ArrowSet"
  where
  "routeStep root0 f fontsize arrowSet arrowObj =
     (case findTarget root0 (dir_target arrowObj) of
        None \<Rightarrow> arrowSet
      | Some target \<Rightarrow> add arrowSet (routeArrow root0 f fontsize arrowObj (info target)))"

fun makeArrowSetOn :: "Drawable \<Rightarrow> Drawable \<Rightarrow> real \<Rightarrow> ArrowSet" where
  "makeArrowSetOn root0 (Drawable f cs) fontsize =
     (let arrowSet = foldl (\<lambda>arrowSet child. concatenate arrowSet (makeArrowSetOn root0 child fontsize))
                       newArrowSet cs
      in if \<not> is_leaf f \<or> length (arrows f) = 0 then arrowSet
         else foldl (routeStep root0 f fontsize) arrowSet (arrows f))"

definition makeArrowSet :: "Drawable \<Rightarrow> real \<Rightarrow> ArrowSet" where
  "makeArrowSet root0 fontsize = makeArrowSetOn root0 root0 fontsize"

subsection \<open>The layout steps of \<^verbatim>\<open>Tree.draw\<close>\<close>

text \<open>
  \<^verbatim>\<open>draw\<close> up to the call of \<^verbatim>\<open>resizeCanvas\<close>: the positioned drawable tree, the flag
  \<^verbatim>\<open>has_arrow\<close> and the arrow set.  \<open>alignment\<close> is 0 (top aligned), 1 (leaves aligned)
  or 2 (bottom aligned).
\<close>

definition alignDrawables :: "nat \<Rightarrow> Drawable \<Rightarrow> Drawable" where
  "alignDrawables alignment drawables =
     (let max_depth = getMaxDepth drawables;
          d1 = (if alignment > 0 then moveLeafsToBottom drawables max_depth else drawables)
      in if alignment > 1 then moveParentsDown d1 else d1)"

definition draw ::
  "nat \<Rightarrow> bool \<Rightarrow> Canvas \<Rightarrow> real \<Rightarrow> real \<Rightarrow> SyntaxNode \<Rightarrow> Drawable \<times> bool \<times> ArrowSet" where
  "draw alignment autosub canvas vscaler fontsize syntax_tree =
     (let drawables = drawableFromNode canvas syntax_tree (Fin (- 1)) False;
          d2 = alignDrawables alignment drawables;
          d3 = (if autosub then calculateAutoSubscript d2 else d2);
          (has_arrow, d4) = calculateDrawablePositions canvas d3 vscaler 0;
          arrowSet = makeArrowSet d4 fontsize
      in (d4, has_arrow, arrowSet))"

section \<open>Alignment adjustment: claim C3\<close>

text \<open>All the drawables of a tree, the root first.\<close>

fun allDrawables :: "Drawable \<Rightarrow> Drawable list" where
  "allDrawables (Drawable f cs) = Drawable f cs # concat (map allDrawables cs)"

definition minChildDepth :: "Drawable \<Rightarrow> jsnum" where
  "minChildDepth d = mathMinList (map (\<lambda>c. jsPlus (depth (info c)) (- 1)) (children d))"

fun internalAt :: "real \<Rightarrow> Drawable \<Rightarrow> bool" where
  "internalAt k (Drawable f cs) =
     ((is_leaf f \<longrightarrow> cs = []) \<and> (\<not> is_leaf f \<longrightarrow> depth f = Fin k) \<and>
      (\<forall>c \<in> set cs. internalAt (k + 1) c))"

lemma self_in_allDrawables: "d \<in> set (allDrawables d)"
  by (cases d) simp

lemma drawableFromNode_internalAt:
  "internalAt k (drawableFromNode canvas node (Fin k) fl)"
proof (induction node arbitrary: k fl)
  case (ROOT vs)
  then show ?case by (auto simp: drawableFields_def Let_def)
next
  case (NODE f vs)
  then show ?case by (auto simp: drawableFields_def Let_def)
next
  case (VALUE v)
  then show ?case by (auto simp: drawableFields_def Let_def)
qed

lemma moveLeafs_internalAt:
  "internalAt k d \<Longrightarrow> internalAt k (moveLeafsToBottom d b)"
  by (induction d arbitrary: k) auto

lemma moveLeafs_leaf_depth:
  "n \<in> set (allDrawables (moveLeafsToBottom d b)) \<Longrightarrow> is_leaf (info n) \<Longrightarrow> depth (info n) = b"
  by (induction d arbitrary: n) (auto split: if_splits)

lemma moveParents_leaf_kept:
  "n \<in> set (allDrawables (moveParentsDown d)) \<Longrightarrow> is_leaf (info n) \<Longrightarrow> n \<in> set (allDrawables d)"
proof (induction d arbitrary: n)
  case (Drawable f cs)
  show ?case
  proof (cases "is_leaf f")
    case True
    with Drawable.prems show ?thesis by simp
  next
    case False
    with Drawable.prems Drawable.IH show ?thesis
      by (auto simp: Let_def split: if_splits)
  qed
qed

lemma moveParents_internal:
  "internalAt k d \<Longrightarrow> 1 \<le> k \<Longrightarrow> n \<in> set (allDrawables (moveParentsDown d)) \<Longrightarrow>
     \<not> is_leaf (info n) \<Longrightarrow> depth (info n) = minChildDepth n"
proof (induction d arbitrary: k n)
  case (Drawable f cs)
  show ?case
  proof (cases "is_leaf f")
    case True
    with Drawable.prems show ?thesis by auto
  next
    case False
    have dk: "depth f = Fin k" using False Drawable.prems(1) by simp
    then have nz: "depth f \<noteq> Fin 0" using Drawable.prems(2) by simp
    from Drawable.prems(3) False nz
    consider (self) "n = moveParentsDown (Drawable f cs)"
      | (sub) c where "c \<in> set cs" "n \<in> set (allDrawables (moveParentsDown c))"
      by (auto simp: Let_def)
    then show ?thesis
    proof cases
      case self
      then show ?thesis using False nz by (simp add: Let_def minChildDepth_def)
    next
      case sub
      have "internalAt (k + 1) c" using Drawable.prems(1) sub(1) by simp
      then show ?thesis using Drawable.IH[OF sub(1) _ _ sub(2) Drawable.prems(4), of "k+1"] Drawable.prems(2)
        by simp
    qed
  qed
qed

fun jsLess :: "jsnum \<Rightarrow> jsnum \<Rightarrow> bool" where
  "jsLess NaN y = False"
| "jsLess x NaN = False"
| "jsLess PInf y = False"
| "jsLess x NInf = False"
| "jsLess NInf y = True"
| "jsLess x PInf = True"
| "jsLess (Fin a) (Fin b) = (a < b)"

definition buildDrawables :: "Canvas \<Rightarrow> SyntaxNode \<Rightarrow> Drawable" where
  "buildDrawables canvas syntax_tree = drawableFromNode canvas syntax_tree (Fin (- 1)) False"

lemma foldl_mathMin_Fin:
  "foldl mathMin acc xs = Fin r \<Longrightarrow>
     (acc = PInf \<or> (\<exists>y. acc = Fin y \<and> r \<le> y)) \<and>
     (\<forall>x \<in> set xs. x = PInf \<or> (\<exists>y. x = Fin y \<and> r \<le> y))"
proof (induction xs arbitrary: acc)
  case Nil
  then show ?case by simp
next
  case (Cons x xs)
  from Cons.IH[of "mathMin acc x"] Cons.prems
  have *: "(mathMin acc x = PInf \<or> (\<exists>y. mathMin acc x = Fin y \<and> r \<le> y))"
    and **: "\<forall>x \<in> set xs. x = PInf \<or> (\<exists>y. x = Fin y \<and> r \<le> y)" by auto
  from * have "(acc = PInf \<or> (\<exists>y. acc = Fin y \<and> r \<le> y)) \<and> (x = PInf \<or> (\<exists>y. x = Fin y \<and> r \<le> y))"
    by (cases acc; cases x) (auto simp: min_def split: if_splits)
  with ** show ?case by auto
qed

lemma minChildDepth_less:
  assumes "minChildDepth n = Fin r" "c \<in> set (children n)"
  shows "jsLess (Fin r) (depth (info c))"
proof -
  have "jsPlus (depth (info c)) (- 1) \<in> set (map (\<lambda>c. jsPlus (depth (info c)) (- 1)) (children n))"
    using assms(2) by auto
  with foldl_mathMin_Fin[OF assms(1)[unfolded minChildDepth_def mathMinList_def]]
  have "jsPlus (depth (info c)) (- 1) = PInf \<or> (\<exists>y. jsPlus (depth (info c)) (- 1) = Fin y \<and> r \<le> y)"
    by blast
  then show ?thesis by (cases "depth (info c)") auto
qed

lemma alignDrawables_leaves:
  assumes "1 \<le> a" "n \<in> set (allDrawables (alignDrawables a d))" "is_leaf (info n)"
  shows "depth (info n) = getMaxDepth d"
proof (cases "a > 1")
  case True
  then have "n \<in> set (allDrawables (moveParentsDown (moveLeafsToBottom d (getMaxDepth d))))"
    using assms by (simp add: alignDrawables_def Let_def)
  then have "n \<in> set (allDrawables (moveLeafsToBottom d (getMaxDepth d)))"
    using assms(3) by (rule moveParents_leaf_kept)
  then show ?thesis using assms(3) by (rule moveLeafs_leaf_depth)
next
  case False
  then have "n \<in> set (allDrawables (moveLeafsToBottom d (getMaxDepth d)))"
    using assms by (simp add: alignDrawables_def Let_def)
  then show ?thesis using assms(3) by (rule moveLeafs_leaf_depth)
qed

lemma moveLeafs_is_leaf: "is_leaf (info (moveLeafsToBottom d b)) = is_leaf (info d)"
  by (cases d) simp

lemma build_root_not_leaf: "\<not> is_leaf (info (buildDrawables canvas (ROOT vs)))"
  by (simp add: buildDrawables_def drawableFields_def Let_def)

lemma bottom_root:
  assumes "2 \<le> a" "res = alignDrawables a (buildDrawables canvas (ROOT vs))"
  shows "depth (info res) = minChildDepth res"
  using assms by (simp add: alignDrawables_def buildDrawables_def Let_def drawableFields_def minChildDepth_def)

lemma bottom_top_level:
  assumes "2 \<le> a" "res = alignDrawables a (buildDrawables canvas (ROOT vs))"
    "c \<in> set (children res)" "\<not> is_leaf (info c)"
  shows "depth (info c) = Fin 0"
proof -
  let ?d = "buildDrawables canvas (ROOT vs)"
  let ?m = "moveLeafsToBottom ?d (getMaxDepth ?d)"
  have ia: "internalAt (- 1) ?m"
    unfolding buildDrawables_def by (intro moveLeafs_internalAt drawableFromNode_internalAt)
  obtain f cs where m: "?m = Drawable f cs" by (cases ?m)
  have "\<not> is_leaf (info ?m)" by (simp add: moveLeafs_is_leaf build_root_not_leaf)
  then have nl: "\<not> is_leaf f" using m by simp
  have res: "children res = map moveParentsDown cs"
    using assms(1,2) m nl by (simp add: alignDrawables_def Let_def)
  then obtain c0 where c0: "c0 \<in> set cs" "c = moveParentsDown c0" using assms(3) by auto
  have "internalAt 0 c0" using ia m c0(1) by auto
  then show ?thesis using c0(2) assms(4) by (cases c0) (auto simp: Let_def split: if_splits)
qed

lemma bottom_deeper:
  assumes "2 \<le> a" "res = alignDrawables a (buildDrawables canvas (ROOT vs))"
    "c \<in> set (children res)" "g \<in> set (children c)" "n \<in> set (allDrawables g)" "\<not> is_leaf (info n)"
  shows "depth (info n) = minChildDepth n"
proof -
  let ?d = "buildDrawables canvas (ROOT vs)"
  let ?m = "moveLeafsToBottom ?d (getMaxDepth ?d)"
  have ia: "internalAt (- 1) ?m"
    unfolding buildDrawables_def by (intro moveLeafs_internalAt drawableFromNode_internalAt)
  obtain f cs where m: "?m = Drawable f cs" by (cases ?m)
  have "\<not> is_leaf (info ?m)" by (simp add: moveLeafs_is_leaf build_root_not_leaf)
  then have nl: "\<not> is_leaf f" using m by simp
  have res: "children res = map moveParentsDown cs"
    using assms(1,2) m nl by (simp add: alignDrawables_def Let_def)
  then obtain c0 where c0: "c0 \<in> set cs" "c = moveParentsDown c0" using assms(3) by auto
  have i0: "internalAt 0 c0" using ia m c0(1) by auto
  obtain f0 cs0 where c0eq: "c0 = Drawable f0 cs0" by (cases c0)
  have "\<not> is_leaf f0" using assms(4) c0(2) c0eq i0 by (auto split: if_splits)
  then have "children c = map moveParentsDown cs0" using c0(2) c0eq by (simp add: Let_def)
  then obtain g0 where g0: "g0 \<in> set cs0" "g = moveParentsDown g0" using assms(4) by auto
  have "internalAt 1 g0" using i0 c0eq g0(1) by auto
  then show ?thesis using moveParents_internal[of 1 g0 n] assms(5,6) g0(2) by simp
qed

subsection \<open>An example input\<close>

text \<open>
  The objects \<^verbatim>\<open>parseNode\<close> and \<^verbatim>\<open>parseValue\<close> build for a label with nothing else, a
  canvas whose text width is 8 per character, and the tree of the input
  \<^verbatim>\<open>[A B][C [D E]]\<close>: two top-level nodes.
\<close>

definition plainNode :: "string \<Rightarrow> SyntaxNode list \<Rightarrow> SyntaxNode" where
  "plainNode l vs =
     NODE \<lparr> n_label = l, n_subscript = None, n_superscript = None, n_features = [],
            n_caseFeature = None \<rparr> vs"

definition plainValue :: "string \<Rightarrow> SyntaxNode" where
  "plainValue l =
     VALUE \<lparr> v_label = l, v_subscript = None, v_superscript = None, v_arrows = [],
             v_caseFeature = None \<rparr>"

definition monoCanvas :: Canvas where
  "monoCanvas = \<lparr> textWidth = (\<lambda>s. 8 * real (length s)), canvas_fontsize = 16 \<rparr>"

definition twoTrees :: SyntaxNode where
  "twoTrees = ROOT [plainNode ''A'' [plainValue ''B''],
                    plainNode ''C'' [plainNode ''D'' [plainValue ''E'']]]"

lemma moveParents_leaves:
  "filter (\<lambda>n. is_leaf (info n)) (allDrawables (moveParentsDown d)) =
   filter (\<lambda>n. is_leaf (info n)) (allDrawables d)"
proof (induction d)
  case (Drawable f cs)
  show ?case
  proof (cases "is_leaf f")
    case True
    then show ?thesis by simp
  next
    case False
    have eq: "map (\<lambda>c. filter (\<lambda>n. is_leaf (info n)) (allDrawables (moveParentsDown c))) cs =
          map (\<lambda>c. filter (\<lambda>n. is_leaf (info n)) (allDrawables c)) cs"
      using Drawable.IH by simp
    show ?thesis using False
      by (simp add: Let_def filter_concat comp_def eq)
  qed
qed

lemmas ex_defs = alignDrawables_def buildDrawables_def drawableFields_def Let_def
  twoTrees_def plainNode_def plainValue_def monoCanvas_def caseGuard_def truthy_def
  mathMinList_def minChildDepth_def labelWidth_def NODE_PADDING_def

text \<open>
  Claim C3, as stated, has every internal drawable at \<open>min(child.depth) - 1\<close> under
  BottomAligned.  \<^verbatim>\<open>moveParentsDown\<close> leaves a drawable whose depth is 0 where it is: for
  \<^verbatim>\<open>[A B][C [D E]]\<close> the leaf \<open>B\<close> moves to depth 2 and its parent \<open>A\<close> stays at depth 0,
  not 1.
\<close>

theorem bottom_aligned_top_level_counterexample:
  "\<not> (\<forall>n \<in> set (allDrawables (alignDrawables 2 (buildDrawables monoCanvas twoTrees))).
        \<not> is_leaf (info n) \<longrightarrow> depth (info n) = minChildDepth n) \<and>
   depth (info (children (alignDrawables 2 (buildDrawables monoCanvas twoTrees)) ! 0)) = Fin 0 \<and>
   minChildDepth (children (alignDrawables 2 (buildDrawables monoCanvas twoTrees)) ! 0) = Fin 1"
  by (simp add: ex_defs)

text \<open>
  Claim C3, amended.  For the drawable tree built from a root and aligned: under
  LeavesAligned and BottomAligned every leaf has the maximum depth of the tree as built.
  Under BottomAligned the root has depth \<open>min(child.depth) - 1\<close>; the top-level nodes
  (the root's children, at depth 0) keep depth 0; every internal drawable below them has
  depth \<open>min(child.depth) - 1\<close> over its children, where the minimum of no children is
  \<^verbatim>\<open>Infinity\<close>, and when that depth is finite it is strictly less than the depth of each
  child.  The parent adjustment leaves the leaves as they are.
\<close>

theorem alignment_depths:
  assumes "res = alignDrawables a (buildDrawables canvas (ROOT vs))"
  shows "(1 \<le> a \<longrightarrow>
            (\<forall>n \<in> set (allDrawables res). is_leaf (info n) \<longrightarrow>
                depth (info n) = getMaxDepth (buildDrawables canvas (ROOT vs)))) \<and>
         (2 \<le> a \<longrightarrow>
            depth (info res) = minChildDepth res \<and>
            (\<forall>c \<in> set (children res).
                (\<not> is_leaf (info c) \<longrightarrow> depth (info c) = Fin 0) \<and>
                (\<forall>g \<in> set (children c). \<forall>n \<in> set (allDrawables g).
                    \<not> is_leaf (info n) \<longrightarrow>
                      depth (info n) = minChildDepth n \<and>
                      (\<forall>r. depth (info n) = Fin r \<longrightarrow>
                         (\<forall>k \<in> set (children n). jsLess (Fin r) (depth (info k))))))) \<and>
         filter (\<lambda>n. is_leaf (info n)) (allDrawables (moveParentsDown d)) =
           filter (\<lambda>n. is_leaf (info n)) (allDrawables d)"
proof (intro conjI impI ballI allI)
  fix n assume "1 \<le> a" "n \<in> set (allDrawables res)" "is_leaf (info n)"
  then show "depth (info n) = getMaxDepth (buildDrawables canvas (ROOT vs))"
    using alignDrawables_leaves assms by blast
next
  assume "2 \<le> a"
  then show "depth (info res) = minChildDepth res" using assms by (rule bottom_root)
next
  fix c assume "2 \<le> a" "c \<in> set (children res)" "\<not> is_leaf (info c)"
  then show "depth (info c) = Fin 0" using bottom_top_level[OF _ assms] by blast
next
  fix c g n
  assume "2 \<le> a" "c \<in> set (children res)" "g \<in> set (children c)"
    "n \<in> set (allDrawables g)" "\<not> is_leaf (info n)"
  then show "depth (info n) = minChildDepth n" using bottom_deeper[OF _ assms] by blast
next
  fix c g n r k
  assume *: "2 \<le> a" "c \<in> set (children res)" "g \<in> set (children c)"
    "n \<in> set (allDrawables g)" "\<not> is_leaf (info n)"
    and r: "depth (info n) = Fin r" and k: "k \<in> set (children n)"
  have "depth (info n) = minChildDepth n" using bottom_deeper[OF _ assms] * by blast
  then have "minChildDepth n = Fin r" using r by simp
  then show "jsLess (Fin r) (depth (info k))" using k by (rule minChildDepth_less)
next
  show "filter (\<lambda>n. is_leaf (info n)) (allDrawables (moveParentsDown d)) =
        filter (\<lambda>n. is_leaf (info n)) (allDrawables d)" by (rule moveParents_leaves)
qed

theorem alignment_depths_witness:
  "map (\<lambda>n. depth (info n))
     (allDrawables (alignDrawables 2 (buildDrawables monoCanvas twoTrees)))
     = [Fin (- 1), Fin 0, Fin 2, Fin 0, Fin 1, Fin 2] \<and>
   getMaxDepth (buildDrawables monoCanvas twoTrees) = Fin 2"
  using alignment_depths [of "alignDrawables 2 (buildDrawables monoCanvas twoTrees)" 2 monoCanvas
      "[plainNode ''A'' [plainValue ''B''], plainNode ''C'' [plainNode ''D'' [plainValue ''E'']]]"]
  by (simp add: ex_defs)

section \<open>Arrow routing: claims C6 and C8\<close>

text \<open>
  The leaves of a tree in the order \<^verbatim>\<open>findTargetLeaf\<close> counts them (a drawable before its
  children), and in the order \<^verbatim>\<open>makeArrowSetOn\<close> visits them (after its children).  A
  leaf has no children in a tree the build phase made, and the two orders agree there.
\<close>

definition leavesOf :: "Drawable \<Rightarrow> Drawable list" where
  "leavesOf d = filter (\<lambda>n. is_leaf (info n)) (allDrawables d)"

lemma leavesOf_Drawable:
  "leavesOf (Drawable f cs) =
     (if is_leaf f then [Drawable f cs] else []) @ concat (map leavesOf cs)"
  by (simp add: leavesOf_def [abs_def] filter_concat comp_def)

lemma findTargetLeaf_leaves:
  "findTargetLeaf d idx count0 =
     (if count0 < idx \<and> idx \<le> count0 + length (leavesOf d)
      then (idx, Some (leavesOf d ! (idx - count0 - 1)))
      else (count0 + length (leavesOf d), None))"
  and findTargetLeafEach_leaves:
  "findTargetLeafEach cs idx count0 =
     (if count0 < idx \<and> idx \<le> count0 + length (concat (map leavesOf cs))
      then (idx, Some (concat (map leavesOf cs) ! (idx - count0 - 1)))
      else (count0 + length (concat (map leavesOf cs)), None))"
proof (induction d idx count0 and cs idx count0 rule: findTargetLeaf_findTargetLeafEach.induct)
  case (1 f cs arrow_idx count0)
  show ?case
  proof (cases "is_leaf f")
    case True
    show ?thesis
    proof (cases "count0 + 1 = arrow_idx")
      case True
      with \<open>is_leaf f\<close> show ?thesis by (simp add: leavesOf_Drawable)
    next
      case False
      then show ?thesis using \<open>is_leaf f\<close> 1[of "count0 + 1"]
        by (auto simp: leavesOf_Drawable Let_def nth_Cons')
    qed
  next
    case False
    then show ?thesis using 1[of count0] by (simp add: leavesOf_Drawable Let_def)
  qed
next
  case (2 arrow_idx count0)
  then show ?case by simp
next
  case (3 child rest arrow_idx count0)
  show ?case
  proof (cases "count0 < arrow_idx \<and> arrow_idx \<le> count0 + length (leavesOf child)")
    case True
    then have "arrow_idx - Suc count0 < length (leavesOf child)" by arith
    then show ?thesis using 3(1) True by (simp add: nth_append)
  next
    case False
    then have fc: "findTargetLeaf child arrow_idx count0 = (count0 + length (leavesOf child), None)"
      using 3(1) by simp
    show ?thesis using False 3(2)[OF fc[symmetric] refl] fc
      by (auto simp: nth_append)
  qed
qed

lemma mathMax_commute: "mathMax x y = mathMax y x"
  by (cases x; cases y) (auto simp: max.commute)

lemma mathMax_assoc: "mathMax (mathMax x y) z = mathMax x (mathMax y z)"
  by (cases x; cases y; cases z) (auto simp: max.assoc)

lemma mathMax_idem: "mathMax x x = x"
  by (cases x) auto

lemma foldl_mathMax_left: "foldl mathMax (mathMax a b) xs = mathMax a (foldl mathMax b xs)"
  by (induction xs arbitrary: b) (simp_all add: mathMax_assoc)

lemma foldl_mathMax_absorb: "mathMax (foldl mathMax a xs) a = foldl mathMax a xs"
proof -
  have "mathMax (foldl mathMax a xs) a = foldl mathMax (mathMax a a) xs"
    by (simp add: foldl_mathMax_left mathMax_commute)
  then show ?thesis by (simp add: mathMax_idem)
qed

definition arrowSetOf :: "Arrow list \<Rightarrow> ArrowSet" where
  "arrowSetOf as = \<lparr> set_arrows = as, maxBottom = foldl mathMax (Fin 0) (map bottom as) \<rparr>"

lemma newArrowSet_eq: "newArrowSet = arrowSetOf []"
  by (simp add: newArrowSet_def arrowSetOf_def)

lemma add_arrowSetOf: "add (arrowSetOf as) a = arrowSetOf (as @ [a])"
  by (simp add: add_def arrowSetOf_def)

lemma concatenate_arrowSetOf:
  "concatenate (arrowSetOf as) (arrowSetOf bs) = arrowSetOf (as @ bs)"
proof -
  have "mathMax (foldl mathMax (Fin 0) (map bottom as)) (foldl mathMax (Fin 0) (map bottom bs))
        = foldl mathMax (mathMax (foldl mathMax (Fin 0) (map bottom as)) (Fin 0)) (map bottom bs)"
    by (simp add: foldl_mathMax_left)
  also have "\<dots> = foldl mathMax (foldl mathMax (Fin 0) (map bottom as)) (map bottom bs)"
    by (simp add: foldl_mathMax_absorb)
  finally show ?thesis by (simp add: concatenate_def arrowSetOf_def)
qed

definition resolves :: "Drawable \<Rightarrow> ArrowDirective \<Rightarrow> bool" where
  "resolves root0 a = (1 \<le> dir_target a \<and> dir_target a \<le> length (leavesOf root0))"

definition targetOf :: "Drawable \<Rightarrow> ArrowDirective \<Rightarrow> Drawable" where
  "targetOf root0 a = leavesOf root0 ! (dir_target a - 1)"

definition routesOf :: "Drawable \<Rightarrow> real \<Rightarrow> Drawable \<Rightarrow> Arrow list" where
  "routesOf root0 fontsize n =
     map (\<lambda>a. routeArrow root0 (info n) fontsize a (info (targetOf root0 a)))
       (filter (resolves root0) (arrows (info n)))"

fun sourcesOf :: "Drawable \<Rightarrow> Drawable list" where
  "sourcesOf (Drawable f cs) =
     concat (map sourcesOf cs) @ (if is_leaf f then [Drawable f cs] else [])"

lemma findTarget_leaves:
  "findTarget root0 idx =
     (if 1 \<le> idx \<and> idx \<le> length (leavesOf root0) then Some (leavesOf root0 ! (idx - 1)) else None)"
  by (auto simp: findTarget_def findTargetLeaf_leaves)

lemma routeStep_fold:
  "foldl (routeStep root0 f fontsize) (arrowSetOf as) ds =
     arrowSetOf (as @ map (\<lambda>a. routeArrow root0 f fontsize a (info (targetOf root0 a)))
                        (filter (resolves root0) ds))"
proof (induction ds arbitrary: as)
  case Nil
  then show ?case by simp
next
  case (Cons a ds)
  show ?case
  proof (cases "resolves root0 a")
    case True
    then have "routeStep root0 f fontsize (arrowSetOf as) a =
      arrowSetOf (as @ [routeArrow root0 f fontsize a (info (targetOf root0 a))])"
      by (simp add: routeStep_def findTarget_leaves resolves_def targetOf_def add_arrowSetOf)
    then show ?thesis using True Cons.IH by simp
  next
    case False
    then have "routeStep root0 f fontsize (arrowSetOf as) a = arrowSetOf as"
      by (auto simp: routeStep_def findTarget_leaves resolves_def)
    then show ?thesis using False Cons.IH by simp
  qed
qed

lemma concatenate_fold:
  "(\<And>c. c \<in> set cs \<Longrightarrow> g c = arrowSetOf (A c)) \<Longrightarrow>
   foldl (\<lambda>s c. concatenate s (g c)) (arrowSetOf as) cs = arrowSetOf (as @ concat (map A cs))"
proof (induction cs arbitrary: as)
  case Nil
  then show ?case by simp
next
  case (Cons c cs)
  have "g c = arrowSetOf (A c)" using Cons.prems by simp
  then show ?case using Cons.IH[of "as @ A c"] Cons.prems
    by (simp add: concatenate_arrowSetOf)
qed

lemma makeArrowSetOn_routes:
  "makeArrowSetOn root0 d fontsize = arrowSetOf (concat (map (routesOf root0 fontsize) (sourcesOf d)))"
proof (induction d)
  case (Drawable f cs)
  have ch: "foldl (\<lambda>s c. concatenate s (makeArrowSetOn root0 c fontsize)) newArrowSet cs =
        arrowSetOf (concat (map (\<lambda>c. concat (map (routesOf root0 fontsize) (sourcesOf c))) cs))"
    unfolding newArrowSet_eq
    using concatenate_fold[of cs "\<lambda>c. makeArrowSetOn root0 c fontsize"
        "\<lambda>c. concat (map (routesOf root0 fontsize) (sourcesOf c))" "[]"] Drawable.IH
    by simp
  have flat: "concat (map (\<lambda>c. concat (map (routesOf root0 fontsize) (sourcesOf c))) cs) =
      concat (map (routesOf root0 fontsize) (concat (map sourcesOf cs)))"
    by (induction cs) simp_all
  have self: "routesOf root0 fontsize (Drawable f cs) =
      map (\<lambda>a. routeArrow root0 f fontsize a (info (targetOf root0 a)))
        (filter (resolves root0) (arrows f))"
    by (simp add: routesOf_def)
  show ?case
  proof (cases "is_leaf f")
    case False
    then show ?thesis using ch flat by (simp add: Let_def)
  next
    case True
    show ?thesis
    proof (cases "arrows f = []")
      case True
      then show ?thesis using \<open>is_leaf f\<close> ch flat by (simp add: Let_def self)
    next
      case False
      then show ?thesis using \<open>is_leaf f\<close> ch flat
        by (simp add: Let_def self routeStep_fold)
    qed
  qed
qed

lemma set_sourcesOf: "set (sourcesOf d) = set (leavesOf d)"
  by (induction d) (auto simp: leavesOf_Drawable)

definition between :: "real \<Rightarrow> real \<Rightarrow> Drawable \<Rightarrow> bool" where
  "between lo hi n = (lo \<le> left_x (info n) \<and> left_x (info n) \<le> hi)"

lemma findMax_children:
  "(\<And>c m. c \<in> set cs \<Longrightarrow> g c m = foldl mathMax m (T c)) \<Longrightarrow>
   foldl (\<lambda>m c. mathMax (g c m) m) m0 cs = foldl mathMax m0 (concat (map T cs))"
proof (induction cs arbitrary: m0)
  case Nil
  then show ?case by simp
next
  case (Cons c cs)
  have "mathMax (g c m0) m0 = foldl mathMax m0 (T c)"
    using Cons.prems[of c m0] by (simp add: foldl_mathMax_absorb)
  then show ?case using Cons.IH[of "foldl mathMax m0 (T c)"] Cons.prems by simp
qed

lemma findMaxDepthBetween_fold:
  "findMaxDepthBetween d lo hi m0 =
     foldl mathMax m0 (map (\<lambda>n. top_y (info n)) (filter (between lo hi) (sourcesOf d)))"
proof (induction d arbitrary: m0)
  case (Drawable f cs)
  have ch: "foldl (\<lambda>m c. mathMax (findMaxDepthBetween c lo hi m) m) m0 cs =
      foldl mathMax m0
        (concat (map (\<lambda>c. map (\<lambda>n. top_y (info n)) (filter (between lo hi) (sourcesOf c))) cs))"
    by (rule findMax_children) (rule Drawable.IH)
  have flat: "concat (map (\<lambda>c. map (\<lambda>n. top_y (info n)) (filter (between lo hi) (sourcesOf c))) cs)
      = map (\<lambda>n. top_y (info n)) (filter (between lo hi) (concat (map sourcesOf cs)))"
    by (induction cs) simp_all
  have self: "between lo hi (Drawable f cs) = (lo \<le> left_x f \<and> left_x f \<le> hi)"
    by (simp add: between_def)
  have step: "mathMax (top_y f) m1 = foldl mathMax m1 [top_y f]" for m1
    by (simp add: mathMax_commute)
  show ?case
  proof (cases "is_leaf f \<and> lo \<le> left_x f \<and> left_x f \<le> hi")
    case True
    then show ?thesis using flat self by (simp add: Let_def ch step del: foldl.simps)
  next
    case False
    then show ?thesis using flat self by (auto simp: Let_def ch)
  qed
qed

lemma foldl_mathMax_Fin: "foldl mathMax (Fin m) (map Fin ts) = Fin (Max (set (m # ts)))"
proof -
  have "foldl mathMax (Fin m) (map Fin ts) = Fin (fold max ts m)"
    by (induction ts arbitrary: m) (simp_all add: max.commute)
  then show ?thesis by (simp only: Max.set_eq_fold)
qed

definition topOf :: "Drawable \<Rightarrow> real" where
  "topOf n = (case top_y (info n) of Fin t \<Rightarrow> t | _ \<Rightarrow> 0)"

definition spanned :: "Drawable \<Rightarrow> DrawableFields \<Rightarrow> DrawableFields \<Rightarrow> Drawable set" where
  "spanned root0 src tgt =
     {n \<in> set (leavesOf root0).
        min (left_x src) (left_x tgt) \<le> left_x (info n) \<and>
        left_x (info n) \<le> max (left_x src) (left_x tgt)}"

definition finiteTops :: "Drawable \<Rightarrow> bool" where
  "finiteTops root0 = list_all (\<lambda>n. \<exists>t. 0 \<le> t \<and> top_y (info n) = Fin t) (leavesOf root0)"

lemma findMax_spanned:
  assumes ft: "finiteTops root0" and src: "src \<in> set (leavesOf root0)"
    and sp: "lo \<le> left_x (info src)" "left_x (info src) \<le> hi"
  shows "findMaxDepthBetween root0 lo hi (Fin 0) =
     Fin (Max (topOf ` {n \<in> set (leavesOf root0). lo \<le> left_x (info n) \<and> left_x (info n) \<le> hi}))"
proof -
  let ?L = "filter (between lo hi) (sourcesOf root0)"
  have fin: "\<And>n. n \<in> set ?L \<Longrightarrow> top_y (info n) = Fin (topOf n) \<and> 0 \<le> topOf n"
    using ft by (auto simp: finiteTops_def list_all_iff set_sourcesOf topOf_def)
  then have "map (\<lambda>n. top_y (info n)) ?L = map Fin (map topOf ?L)" by simp
  then have "findMaxDepthBetween root0 lo hi (Fin 0) = Fin (Max (set (0 # map topOf ?L)))"
    by (simp only: findMaxDepthBetween_fold foldl_mathMax_Fin)
  moreover have "src \<in> set ?L" using src sp by (simp add: set_sourcesOf between_def)
  then have ne: "set (map topOf ?L) \<noteq> {}" by auto
  have "Max (set (0 # map topOf ?L)) = Max (set (map topOf ?L))"
  proof -
    have "Max (insert 0 (set (map topOf ?L))) = max 0 (Max (set (map topOf ?L)))"
      using ne by (intro Max_insert) auto
    moreover have "0 \<le> Max (set (map topOf ?L))"
    proof -
      have "topOf src \<in> set (map topOf ?L)" using \<open>src \<in> set ?L\<close> by auto
      then have "topOf src \<le> Max (set (map topOf ?L))" by (intro Max_ge) auto
      moreover have "0 \<le> topOf src" using fin \<open>src \<in> set ?L\<close> by blast
      ultimately show ?thesis by linarith
    qed
    ultimately show ?thesis by simp
  qed
  moreover have "set (map topOf ?L) =
      topOf ` {n \<in> set (leavesOf root0). lo \<le> left_x (info n) \<and> left_x (info n) \<le> hi}"
    by (auto simp: set_sourcesOf between_def)
  ultimately show ?thesis by simp
qed

lemma routeArrow_bottom:
  assumes "finiteTops root0" "src \<in> set (leavesOf root0)"
  shows "bottom (routeArrow root0 (info src) fontsize dir tgt) =
     Fin (1.4 * Max (topOf ` spanned root0 (info src) tgt))"
proof -
  have "findMaxDepthBetween root0 (min (left_x (info src)) (left_x tgt))
          (max (left_x (info src)) (left_x tgt)) (Fin 0) =
        Fin (Max (topOf ` spanned root0 (info src) tgt))"
    unfolding spanned_def by (rule findMax_spanned[OF assms]) auto
  then show ?thesis by (simp add: routeArrow_def)
qed

lemma findMax_nonneg:
  assumes ft: "finiteTops root0"
  shows "\<exists>r. 0 \<le> r \<and> findMaxDepthBetween root0 lo hi (Fin 0) = Fin r"
proof -
  let ?L = "filter (between lo hi) (sourcesOf root0)"
  have "\<And>n. n \<in> set ?L \<Longrightarrow> top_y (info n) = Fin (topOf n)"
    using ft by (auto simp: finiteTops_def list_all_iff set_sourcesOf topOf_def)
  then have "map (\<lambda>n. top_y (info n)) ?L = map Fin (map topOf ?L)" by simp
  then have "findMaxDepthBetween root0 lo hi (Fin 0) = Fin (Max (set (0 # map topOf ?L)))"
    by (simp only: findMaxDepthBetween_fold foldl_mathMax_Fin)
  moreover have "0 \<le> Max (set (0 # map topOf ?L))" by (intro Max_ge) auto
  ultimately show ?thesis by blast
qed

lemma routeArrow_bottom_nonneg:
  assumes "finiteTops root0"
  shows "\<exists>b. 0 \<le> b \<and> bottom (routeArrow root0 f fontsize dir tgt) = Fin b"
proof -
  obtain r where "0 \<le> r" "findMaxDepthBetween root0 (min (left_x f) (left_x tgt))
      (max (left_x f) (left_x tgt)) (Fin 0) = Fin r"
    using findMax_nonneg[OF assms] by blast
  then have "0 \<le> r * 1.4"
    and "bottom (routeArrow root0 f fontsize dir tgt) = Fin (r * 1.4)"
    by (simp_all add: routeArrow_def)
  then show ?thesis by blast
qed

lemma routed_arrow_source:
  assumes "arrow \<in> set (set_arrows (makeArrowSet root0 fontsize))"
  shows "\<exists>src \<in> set (leavesOf root0). \<exists>dir \<in> set (arrows (info src)). \<exists>tgt \<in> set (leavesOf root0).
           findTarget root0 (dir_target dir) = Some tgt \<and>
           arrow = routeArrow root0 (info src) fontsize dir (info tgt)"
proof -
  from assms obtain src where src: "src \<in> set (sourcesOf root0)"
    and ar: "arrow \<in> set (routesOf root0 fontsize src)"
    by (auto simp: makeArrowSet_def makeArrowSetOn_routes arrowSetOf_def)
  from ar obtain dir where dir: "dir \<in> set (arrows (info src))" "resolves root0 dir"
    and eq: "arrow = routeArrow root0 (info src) fontsize dir (info (targetOf root0 dir))"
    by (auto simp: routesOf_def)
  have ft: "findTarget root0 (dir_target dir) = Some (targetOf root0 dir)"
    using dir(2) by (simp add: findTarget_leaves resolves_def targetOf_def)
  have "targetOf root0 dir \<in> set (leavesOf root0)"
    using dir(2) by (auto simp: resolves_def targetOf_def intro!: nth_mem)
  then show ?thesis using src dir(1) ft eq by (auto simp: set_sourcesOf)
qed

lemma maxBottom_is_max:
  assumes ft: "finiteTops root0" and ne: "set_arrows (makeArrowSet root0 fontsize) \<noteq> []"
  shows "\<exists>bs. map bottom (set_arrows (makeArrowSet root0 fontsize)) = map Fin bs \<and>
              maxBottom (makeArrowSet root0 fontsize) = Fin (Max (set bs))"
proof -
  let ?as = "set_arrows (makeArrowSet root0 fontsize)"
  have each: "\<exists>b. 0 \<le> b \<and> bottom arrow = Fin b" if "arrow \<in> set ?as" for arrow
    using routed_arrow_source[OF that] routeArrow_bottom_nonneg[OF ft] by metis
  define bs where "bs = map (\<lambda>arrow. case bottom arrow of Fin b \<Rightarrow> b | _ \<Rightarrow> 0) ?as"
  have m: "map bottom ?as = map Fin bs"
    unfolding bs_def using each by (fastforce simp: map_eq_conv)
  have pos: "\<forall>b \<in> set bs. 0 \<le> b"
    unfolding bs_def using each by fastforce
  have bne: "bs \<noteq> []" using ne by (simp add: bs_def)
  have "maxBottom (makeArrowSet root0 fontsize) = foldl mathMax (Fin 0) (map bottom ?as)"
    by (simp add: makeArrowSet_def makeArrowSetOn_routes arrowSetOf_def)
  also have "\<dots> = Fin (Max (set (0 # bs)))" by (simp only: m foldl_mathMax_Fin)
  also have "Max (set (0 # bs)) = Max (set bs)"
  proof -
    obtain b where b: "b \<in> set bs" using bne by (cases bs) auto
    have "Max (insert 0 (set bs)) = max 0 (Max (set bs))" using bne by (intro Max_insert) auto
    moreover have "0 \<le> Max (set bs)"
    proof -
      have "b \<le> Max (set bs)" using b by (intro Max_ge) auto
      moreover have "0 \<le> b" using b pos by blast
      ultimately show ?thesis by linarith
    qed
    ultimately show ?thesis by simp
  qed
  finally show ?thesis using m by blast
qed

subsection \<open>A positioned example\<close>

text \<open>
  The input \<^verbatim>\<open>[A B [D [E F ->1 ->7]]]\<close>: the leaf \<open>F\<close> carries two directives, to leaf 1
  (\<open>B\<close>) and to leaf 7, and the tree has two leaves.  \<open>positioned\<close> is the drawable tree
  that \<^verbatim>\<open>draw\<close> lays out for it, top aligned, with font size 16 and vertical scale 1.
\<close>

definition arrowTree :: SyntaxNode where
  "arrowTree = ROOT [plainNode ''A'' [plainValue ''B'',
      plainNode ''D'' [plainNode ''E''
        [VALUE \<lparr> v_label = ''F'', v_subscript = None, v_superscript = None,
                 v_arrows = [\<lparr> dir_to = True, dir_from = False, dir_target = 1, dir_label = None, dir_dotted = False \<rparr>,
                             \<lparr> dir_to = True, dir_from = False, dir_target = 7, dir_label = None, dir_dotted = False \<rparr>],
                 v_caseFeature = None \<rparr>]]]]"

definition leafF :: Drawable where
  "leafF = Drawable
           \<lparr>label = ''F'', subscript = None, superscript = None, width = 28,
              depth = Fin 3, is_leaf = True,
              arrows =
                [\<lparr>dir_to = True, dir_from = False, dir_target = 1,
                    dir_label = None, dir_dotted = False\<rparr>,
                 \<lparr>dir_to = True, dir_from = False, dir_target = 7,
                    dir_label = None, dir_dotted = False\<rparr>],
              features = [], caseFeature = None, top_y = Fin 154,
              left_x = 28\<rparr>
           []"

definition leafB :: Drawable where
  "leafB = Drawable
       \<lparr>label = ''B'', subscript = None, superscript = None, width = 28,
          depth = Fin 1, is_leaf = True, arrows = [], features = [],
          caseFeature = None, top_y = Fin 58, left_x = 0\<rparr>
       []"

definition positioned :: Drawable where
  "positioned = Drawable
   \<lparr>label = ''__ROOT__'', subscript = None, superscript = None, width = 56,
      depth = Fin (- 1), is_leaf = False, arrows = [], features = [],
      caseFeature = None, top_y = Fin 0, left_x = 0\<rparr>
   [Drawable
     \<lparr>label = ''A'', subscript = None, superscript = None, width = 56,
        depth = Fin 0, is_leaf = False, arrows = [], features = [],
        caseFeature = None, top_y = Fin 10, left_x = 0\<rparr>
     [leafB,
      Drawable
       \<lparr>label = ''D'', subscript = None, superscript = None, width = 28,
          depth = Fin 1, is_leaf = False, arrows = [], features = [],
          caseFeature = None, top_y = Fin 58, left_x = 28\<rparr>
       [Drawable
         \<lparr>label = ''E'', subscript = None, superscript = None, width = 28,
            depth = Fin 2, is_leaf = False, arrows = [], features = [],
            caseFeature = None, top_y = Fin 106, left_x = 28\<rparr>
         [leafF]]]]"

lemma draw_arrowTree:
  "fst (draw 0 False monoCanvas 1 16 arrowTree) = positioned"
  by (simp add: draw_def alignDrawables_def drawableFields_def Let_def arrowTree_def
      plainNode_def plainValue_def monoCanvas_def caseGuard_def truthy_def labelWidth_def
      NODE_PADDING_def positioned_def leafB_def leafF_def)

lemma leavesOf_positioned: "leavesOf positioned = [leafB, leafF]"
  by (simp add: leavesOf_def positioned_def leafB_def leafF_def)

lemma sourcesOf_positioned: "sourcesOf positioned = [leafB, leafF]"
  by (simp add: positioned_def leafB_def leafF_def)

lemma resolves_positioned: "resolves positioned a = (1 \<le> dir_target a \<and> dir_target a \<le> 2)"
  by (auto simp: resolves_def leavesOf_positioned)

text \<open>
  Claim C8: the 1-based target index of a directive resolves to the leaf of that number in
  left-to-right order, and to no leaf when it is 0 or exceeds the number of leaves; the
  arrows of the set are exactly the routed arrows of the directives that resolve, in order,
  so a directive that resolves to no leaf contributes no arrow and changes nothing else,
  and \<^verbatim>\<open>makeArrowSetOn\<close> has no failing path.
\<close>

theorem unresolved_targets_dropped:
  "findTarget root0 idx =
     (if 1 \<le> idx \<and> idx \<le> length (leavesOf root0) then Some (leavesOf root0 ! (idx - 1)) else None) \<and>
   set_arrows (makeArrowSetOn root0 d fontsize) =
     concat (map (\<lambda>src. map (\<lambda>a. routeArrow root0 (info src) fontsize a (info (targetOf root0 a)))
                          (filter (resolves root0) (arrows (info src))))
               (sourcesOf d)) \<and>
   length (set_arrows (makeArrowSetOn root0 d fontsize)) =
     sum_list (map (\<lambda>src. length (filter (resolves root0) (arrows (info src)))) (sourcesOf d))"
proof -
  have "length (concat (map (routesOf root0 fontsize) xs)) =
        sum_list (map (\<lambda>src. length (filter (resolves root0) (arrows (info src)))) xs)" for xs
    by (induction xs) (simp_all add: routesOf_def)
  then show ?thesis
    by (simp add: findTarget_leaves makeArrowSetOn_routes arrowSetOf_def routesOf_def [abs_def])
qed

theorem unresolved_targets_dropped_witness:
  "length (set_arrows (makeArrowSet (fst (draw 0 False monoCanvas 1 16 arrowTree)) 16)) = 1 \<and>
   findTarget (fst (draw 0 False monoCanvas 1 16 arrowTree)) 7 = None \<and>
   findTarget (fst (draw 0 False monoCanvas 1 16 arrowTree)) 1 = Some leafB"
proof -
  have "findTarget positioned 7 = None"
    using unresolved_targets_dropped [of positioned 7 positioned 16]
    by (simp add: leavesOf_positioned)
  moreover have "findTarget positioned 1 = Some leafB"
    using unresolved_targets_dropped [of positioned 1 positioned 16]
    by (simp add: leavesOf_positioned)
  moreover have "length (set_arrows (makeArrowSet positioned 16)) = 1"
    using unresolved_targets_dropped [of positioned 1 positioned 16]
    by (simp add: makeArrowSet_def sourcesOf_positioned resolves_positioned leafB_def leafF_def)
  ultimately show ?thesis by (simp add: draw_arrowTree)
qed

text \<open>
  Claim C6: in a tree whose leaves have finite, non-negative top coordinates (what the
  position phase assigns for a non-negative font size and vertical scale), every arrow of
  the set comes from a source leaf and a directive whose target resolves to a leaf, and
  its \<open>bottom\<close> is 1.4 times the largest top coordinate among the leaves whose left edge
  lies between those of the source and the target, both included.  The recorded
  \<open>maxBottom\<close> of a non-empty set is the largest \<open>bottom\<close> of its arrows.
\<close>

theorem arrow_bottom:
  assumes "finiteTops root0"
  shows "(\<forall>arrow \<in> set (set_arrows (makeArrowSet root0 fontsize)).
            \<exists>src \<in> set (leavesOf root0). \<exists>dir \<in> set (arrows (info src)).
            \<exists>tgt \<in> set (leavesOf root0).
              findTarget root0 (dir_target dir) = Some tgt \<and>
              arrow = routeArrow root0 (info src) fontsize dir (info tgt) \<and>
              bottom arrow = Fin (1.4 * Max (topOf ` spanned root0 (info src) (info tgt)))) \<and>
         (set_arrows (makeArrowSet root0 fontsize) \<noteq> [] \<longrightarrow>
            (\<exists>bs. map bottom (set_arrows (makeArrowSet root0 fontsize)) = map Fin bs \<and>
                  maxBottom (makeArrowSet root0 fontsize) = Fin (Max (set bs))))"
proof (intro conjI ballI impI)
  fix arrow assume "arrow \<in> set (set_arrows (makeArrowSet root0 fontsize))"
  from routed_arrow_source[OF this]
  obtain src dir tgt where *: "src \<in> set (leavesOf root0)" "dir \<in> set (arrows (info src))"
    "tgt \<in> set (leavesOf root0)" "findTarget root0 (dir_target dir) = Some tgt"
    "arrow = routeArrow root0 (info src) fontsize dir (info tgt)" by blast
  have "bottom arrow = Fin (1.4 * Max (topOf ` spanned root0 (info src) (info tgt)))"
    unfolding *(5) using assms *(1) by (rule routeArrow_bottom)
  with * show "\<exists>src \<in> set (leavesOf root0). \<exists>dir \<in> set (arrows (info src)).
            \<exists>tgt \<in> set (leavesOf root0).
              findTarget root0 (dir_target dir) = Some tgt \<and>
              arrow = routeArrow root0 (info src) fontsize dir (info tgt) \<and>
              bottom arrow = Fin (1.4 * Max (topOf ` spanned root0 (info src) (info tgt)))"
    by blast
next
  assume "set_arrows (makeArrowSet root0 fontsize) \<noteq> []"
  with assms show "\<exists>bs. map bottom (set_arrows (makeArrowSet root0 fontsize)) = map Fin bs \<and>
                  maxBottom (makeArrowSet root0 fontsize) = Fin (Max (set bs))"
    by (rule maxBottom_is_max)
qed

theorem arrow_bottom_witness:
  "finiteTops (fst (draw 0 False monoCanvas 1 16 arrowTree)) \<and>
   map bottom (set_arrows (makeArrowSet (fst (draw 0 False monoCanvas 1 16 arrowTree)) 16))
     = [Fin (1.4 * 154)] \<and>
   maxBottom (makeArrowSet (fst (draw 0 False monoCanvas 1 16 arrowTree)) 16) = Fin (1.4 * 154)"
proof -
  have ft: "finiteTops positioned"
    by (simp add: finiteTops_def leavesOf_positioned) (simp add: leafB_def leafF_def)
  have as: "set_arrows (makeArrowSet positioned 16) =
      [routeArrow positioned (info leafF) 16 (hd (arrows (info leafF))) (info leafB)]"
    by (simp add: makeArrowSet_def makeArrowSetOn_routes arrowSetOf_def sourcesOf_positioned
        routesOf_def resolves_positioned targetOf_def leavesOf_positioned leafB_def leafF_def)
  have sp: "spanned positioned (info leafF) (info leafB) = {leafB, leafF}"
    by (auto simp: spanned_def leavesOf_positioned leafB_def leafF_def)
  have mx: "Max (topOf ` {leafB, leafF}) = 154"
    by (simp add: topOf_def leafB_def leafF_def)
  note ab = arrow_bottom [OF ft, of 16]
  let ?a = "routeArrow positioned (info leafF) 16 (hd (arrows (info leafF))) (info leafB)"
  from ab as obtain src dir tgt where
    src: "src \<in> set (leavesOf positioned)" and dir: "dir \<in> set (arrows (info src))"
    and tgt: "findTarget positioned (dir_target dir) = Some tgt"
    and bt: "bottom ?a = Fin (1.4 * Max (topOf ` spanned positioned (info src) (info tgt)))"
    by auto
  have "src = leafF" using src dir by (auto simp: leavesOf_positioned leafB_def)
  moreover have "tgt = leafB" using dir tgt \<open>src = leafF\<close>
    by (auto simp: findTarget_leaves leavesOf_positioned leafF_def)
  ultimately have b: "bottom ?a = Fin (1.4 * 154)" using bt sp mx by simp
  have ne: "set_arrows (makeArrowSet positioned 16) \<noteq> []" using as by simp
  from ab ne obtain bs where
    bs0: "map bottom (set_arrows (makeArrowSet positioned 16)) = map Fin bs"
    and m: "maxBottom (makeArrowSet positioned 16) = Fin (Max (set bs))" by blast
  have bs: "[bottom ?a] = map Fin bs" using bs0 as by simp
  have "bs = [1.4 * 154]" using bs b by (cases bs) auto
  then have "maxBottom (makeArrowSet positioned 16) = Fin (1.4 * 154)" using m by simp
  then show ?thesis using ft as b by (simp add: draw_arrowTree)
qed

section \<open>The case-feature guard of the build phase: claim C10\<close>

text \<open>
  The tree of the input \<^verbatim>\<open>[NP THE CAT {Acc}]\<close> (\<open>parse_npTokens_catTree\<close> below), and a leaf
  with a case feature whose label starts and ends with the character U+007F
  (\<open>parse_delTokens\<close> below).
\<close>

definition catTree :: SyntaxNode where
  "catTree =
     ROOT [plainNode ''NP''
       [VALUE \<lparr> v_label = ''THE CAT'', v_subscript = None, v_superscript = None,
                v_arrows = [], v_caseFeature = Some ''{Acc}'' \<rparr>]]"

definition delLeaf :: SyntaxNode where
  "delLeaf =
     VALUE \<lparr> v_label = [CHR 0x7F, CHR ''a'', CHR 0x7F], v_subscript = None,
             v_superscript = None, v_arrows = [], v_caseFeature = Some ''{Acc}'' \<rparr>"

lemma info_drawableFromNode:
  "info (drawableFromNode canvas node depth0 fl) =
     (drawableFields canvas node depth0 fl)
       \<lparr>width := getNodeWidth canvas (withLabel node (label (drawableFields canvas node depth0 fl)))\<rparr>"
  by (cases node) (simp_all add: Let_def drawableFields_def)

lemma isDelWrapped_iff:
  "isDelWrapped s \<longleftrightarrow>
     (\<exists>mid. s = CHR 0x7F # mid @ [CHR 0x7F] \<and> (\<forall>c \<in> set mid. \<not> isLineTerminator c))"
proof
  assume a: "isDelWrapped s"
  then have len: "2 \<le> length s" and h: "hd s = CHR 0x7F" and l: "last s = CHR 0x7F"
    and n: "\<forall>x \<in> set s. \<not> isLineTerminator x"
    by (simp_all add: isDelWrapped_def noLineTerminator_def list_ex_iff)
  from len obtain c cs where s: "s = c # cs" by (cases s) auto
  with len have cs: "cs \<noteq> []" by auto
  have c: "c = CHR 0x7F" using h s by simp
  have lc: "last cs = CHR 0x7F" using l s cs by simp
  have "butlast cs @ [last cs] = cs" using cs by (rule append_butlast_last_id)
  then have eq: "s = CHR 0x7F # butlast cs @ [CHR 0x7F]" using s c lc by simp
  have "\<forall>x \<in> set (butlast cs). \<not> isLineTerminator x"
    using n s by (auto dest: in_set_butlastD)
  with eq show "\<exists>mid. s = CHR 0x7F # mid @ [CHR 0x7F] \<and> (\<forall>c \<in> set mid. \<not> isLineTerminator c)"
    by blast
next
  assume "\<exists>mid. s = CHR 0x7F # mid @ [CHR 0x7F] \<and> (\<forall>c \<in> set mid. \<not> isLineTerminator c)"
  then obtain mid where s: "s = CHR 0x7F # mid @ [CHR 0x7F]"
    and m: "\<forall>c \<in> set mid. \<not> isLineTerminator c" by blast
  have d: "\<not> isLineTerminator (CHR 0x7F)" by (simp add: isLineTerminator_def)
  have "noLineTerminator s" using s m d by (simp add: noLineTerminator_def list_ex_iff)
  then show "isDelWrapped s" using s by (simp add: isDelWrapped_def)
qed

lemma strip_cat: "trim (stripTrailingCase ''THE CAT'') = ''THE CAT''"
  by code_simp

lemma build_catTree:
  "map (\<lambda>n. (label (info n), caseFeature (info n))) (allDrawables (buildDrawables monoCanvas catTree))
     = [(''__ROOT__'', None), (''NP'', None), (''THE CAT'', Some ''{Acc}'')]"
proof -
  have d: "\<not> isDelWrapped ''THE CAT''" by (simp add: isDelWrapped_def)
  show ?thesis
    by (simp add: catTree_def buildDrawables_def drawableFields_def Let_def plainNode_def
        caseGuard_def truthy_def d strip_cat del: stripTrailingCase.simps)
qed

text \<open>
  Claim C10, as stated, says the guard is never satisfied and the drawable of every node
  has \<open>caseFeature = null\<close>.  The regular expression of the guard is not \<^verbatim>\<open>/^.*$/\<close>: it
  holds two U+007F characters, and an ordinary label does not match it.  For the leaf of
  \<^verbatim>\<open>[NP THE CAT {Acc}]\<close> the guard holds and the drawable carries the case feature.
\<close>

theorem caseGuard_satisfied_counterexample:
  "caseGuard (VALUE \<lparr> v_label = ''THE CAT'', v_subscript = None, v_superscript = None,
                v_arrows = [], v_caseFeature = Some ''{Acc}'' \<rparr>) True \<and>
   map (\<lambda>n. (label (info n), caseFeature (info n))) (allDrawables (buildDrawables monoCanvas catTree))
     = [(''__ROOT__'', None), (''NP'', None), (''THE CAT'', Some ''{Acc}'')]"
  using build_catTree by (simp add: caseGuard_def truthy_def isDelWrapped_def)

text \<open>
  Claim C10, amended.  The branch is taken exactly for a leaf that has a non-empty
  \<open>caseFeature\<close> and a non-empty label that the pattern \<^verbatim>\<open>/^\x7F.*\x7F$/\<close> does not match:
  the drawable then carries the node's case feature, and its label is the node's with a
  trailing brace group removed and the rest trimmed.  For every other node the drawable
  has \<open>caseFeature = null\<close> and the node's label.  The pattern matches the strings that
  are a U+007F, any characters other than line terminators, and a U+007F.
\<close>

theorem drawable_caseFeature:
  "(isVALUE node \<and> truthy (node_caseFeature node) \<and> node_label node \<noteq> [] \<and>
    \<not> isDelWrapped (node_label node) \<longrightarrow>
      caseFeature (info (drawableFromNode canvas node depth0 fl)) = node_caseFeature node \<and>
      label (info (drawableFromNode canvas node depth0 fl)) =
        trim (stripTrailingCase (node_label node))) \<and>
   (\<not> (isVALUE node \<and> truthy (node_caseFeature node) \<and> node_label node \<noteq> [] \<and>
       \<not> isDelWrapped (node_label node)) \<longrightarrow>
      caseFeature (info (drawableFromNode canvas node depth0 fl)) = None \<and>
      label (info (drawableFromNode canvas node depth0 fl)) = node_label node) \<and>
   (isDelWrapped s \<longleftrightarrow>
      (\<exists>mid. s = CHR 0x7F # mid @ [CHR 0x7F] \<and> (\<forall>c \<in> set mid. \<not> isLineTerminator c)))"
proof (intro conjI impI)
  have lf: "(if fl then \<not> isROOT node \<and> \<not> isNODE node else isVALUE node) = isVALUE node"
    by (cases node) auto
  have g: "caseGuard node (if fl then \<not> isROOT node \<and> \<not> isNODE node else isVALUE node) =
      (isVALUE node \<and> truthy (node_caseFeature node) \<and> node_label node \<noteq> [] \<and>
       \<not> isDelWrapped (node_label node))"
    unfolding lf by (simp add: caseGuard_def)
  {
    assume a: "isVALUE node \<and> truthy (node_caseFeature node) \<and> node_label node \<noteq> [] \<and>
      \<not> isDelWrapped (node_label node)"
    then have pg: "caseGuard node (if fl then \<not> isROOT node \<and> \<not> isNODE node else isVALUE node)"
      using g by blast
    show "caseFeature (info (drawableFromNode canvas node depth0 fl)) = node_caseFeature node"
      by (simp add: info_drawableFromNode) (simp add: drawableFields_def Let_def pg)
    show "label (info (drawableFromNode canvas node depth0 fl)) =
          trim (stripTrailingCase (node_label node))"
      by (simp add: info_drawableFromNode) (simp add: drawableFields_def Let_def pg)
  }
  {
    assume a: "\<not> (isVALUE node \<and> truthy (node_caseFeature node) \<and> node_label node \<noteq> [] \<and>
      \<not> isDelWrapped (node_label node))"
    then have ng: "\<not> caseGuard node (if fl then \<not> isROOT node \<and> \<not> isNODE node else isVALUE node)"
      using g by blast
    show "caseFeature (info (drawableFromNode canvas node depth0 fl)) = None"
      by (simp add: info_drawableFromNode) (simp add: drawableFields_def Let_def ng)
    show "label (info (drawableFromNode canvas node depth0 fl)) = node_label node"
      by (simp add: info_drawableFromNode) (simp add: drawableFields_def Let_def ng)
  }
  show "isDelWrapped s \<longleftrightarrow>
      (\<exists>mid. s = CHR 0x7F # mid @ [CHR 0x7F] \<and> (\<forall>c \<in> set mid. \<not> isLineTerminator c))"
    by (rule isDelWrapped_iff)
qed

theorem drawable_caseFeature_witness:
  "caseFeature (info (drawableFromNode monoCanvas
      (VALUE \<lparr> v_label = ''A {x}'', v_subscript = None, v_superscript = None,
                v_arrows = [], v_caseFeature = Some ''{y}'' \<rparr>) (Fin 1) False)) = Some ''{y}'' \<and>
   label (info (drawableFromNode monoCanvas
      (VALUE \<lparr> v_label = ''A {x}'', v_subscript = None, v_superscript = None,
                v_arrows = [], v_caseFeature = Some ''{y}'' \<rparr>) (Fin 1) False)) = ''A'' \<and>
   caseFeature (info (drawableFromNode monoCanvas delLeaf (Fin 1) False)) = None \<and>
   label (info (drawableFromNode monoCanvas delLeaf (Fin 1) False)) = [CHR 0x7F, CHR ''a'', CHR 0x7F] \<and>
   caseFeature (info (drawableFromNode monoCanvas (plainValue ''B'') (Fin 1) False)) = None \<and>
   isDelWrapped [CHR 0x7F, CHR ''a'', CHR 0x7F]"
proof -
  have s: "trim (stripTrailingCase ''A {x}'') = ''A''"
    by (simp add: trim_def isSpace_def isCaseText_def noLineTerminator_def isLineTerminator_def)
  have d: "isDelWrapped [CHR 0x7F, CHR ''a'', CHR 0x7F]" "\<not> isDelWrapped ''A {x}''"
    by (simp_all add: isDelWrapped_def noLineTerminator_def isLineTerminator_def)
  note t = drawable_caseFeature [of "VALUE \<lparr> v_label = ''A {x}'', v_subscript = None,
      v_superscript = None, v_arrows = [], v_caseFeature = Some ''{y}'' \<rparr>" monoCanvas "Fin 1" False
      "[]"]
    drawable_caseFeature [of delLeaf monoCanvas "Fin 1" False "[]"]
    drawable_caseFeature [of "plainValue ''B''" monoCanvas "Fin 1" False "[]"]
  show ?thesis using t s d
    by (simp add: delLeaf_def plainValue_def truthy_def del: stripTrailingCase.simps)
qed

section \<open>Automatic subscripts: claim C4\<close>

text \<open>The tree of the input \<^verbatim>\<open>[A^x [A B]]\<close>.\<close>

definition superTree :: SyntaxNode where
  "superTree =
     ROOT [NODE \<lparr> n_label = ''A'', n_subscript = None, n_superscript = Some ''x'',
                   n_features = [], n_caseFeature = None \<rparr>
             [plainNode ''A'' [plainValue ''B'']]]"

text \<open>
  Claim C4 has the count ignore a node that carries a subscript or a superscript.
  \<^verbatim>\<open>countNodes\<close> tests \<^verbatim>\<open>!drawable.subscript\<close> only, while \<^verbatim>\<open>assignSubscripts\<close> tests
  both: for \<^verbatim>\<open>[A^x [A B]]\<close> the label \<open>A\<close> is counted twice, and the only \<open>A\<close> without a
  script of its own gets the subscript \<open>1\<close>.
\<close>

theorem autoSubscript_counts_superscripted:
  "countNodes (buildDrawables monoCanvas superTree) = [(''__ROOT__'', 1), (''A'', 2)] \<and>
   map (\<lambda>n. (label (info n), subscript (info n), superscript (info n)))
     (allDrawables (calculateAutoSubscript (buildDrawables monoCanvas superTree)))
   = [(''__ROOT__'', None, None), (''A'', None, Some ''x''), (''A'', Some ''1'', None),
      (''B'', None, None)]"
  by (simp add: superTree_def buildDrawables_def drawableFields_def Let_def plainNode_def
      plainValue_def monoCanvas_def caseGuard_def truthy_def labelWidth_def NODE_PADDING_def
      calculateAutoSubscript_def mapInc_def mapMerge_def mapGetOr0_def showNat.simps digit_def)

section \<open>Width of a drawable and of its children: claim C5\<close>



definition widths :: "Drawable list \<Rightarrow> real list" where
  "widths cs = map (\<lambda>c. width (info c)) cs"

lemma foldl_widths: "foldl (\<lambda>s child. s + width (info child)) a cs = a + sum_list (widths cs)"
  by (induction cs arbitrary: a) (simp_all add: widths_def)

lemma getDrawableChildWidth_sum: "getDrawableChildWidth (Drawable f cs) = sum_list (widths cs)"
  by (simp add: foldl_widths)



















text \<open>
  The tree of the input \<^verbatim>\<open>[NP A {x} {y}]\<close> (\<open>parse_twoMarkerTokens_caseTree\<close> below).  Its
  leaf has a case feature: the build phase measures the label \<open>A\<close> for the leaf, and the
  label \<open>A {x}\<close> of the syntax node for the width of the children of \<open>NP\<close>.
\<close>

definition caseTree :: SyntaxNode where
  "caseTree =
     ROOT [plainNode ''NP''
       [VALUE \<lparr> v_label = ''A {x}'', v_subscript = None, v_superscript = None,
                v_arrows = [], v_caseFeature = Some ''{y}'' \<rparr>]]"






section \<open>The parser (parser.js)\<close>

text \<open>
  What the parser throws:
  \<^item> \<open>MissingLabel\<close>: \<^verbatim>\<open>'Missing label after ['\<close>;
  \<^item> \<open>ExpectedLabel\<close>: \<^verbatim>\<open>'Expected label string after ['\<close>;
  \<^item> \<open>ExpectedSubscriptNode i\<close>: \<^verbatim>\<open>i + ': Expected subscript string after _ or ^'\<close>;
  \<^item> \<open>ExpectedSubscriptValue i\<close>: \<^verbatim>\<open>i + ': Expected subscript string after _/^'\<close>;
  \<^item> \<open>ExpectedColumnNumber i\<close>: \<^verbatim>\<open>i + ': Expected column number after arrow'\<close>;
  \<^item> \<open>MissingClosingBracket i\<close>: \<^verbatim>\<open>i + ': Missing closing bracket ] ...'\<close>;
  \<^item> \<open>UnexpectedToken t i\<close>: \<^verbatim>\<open>'Unexpected ' + t.type + ' at idx ' + i\<close>;
  \<^item> \<open>TypeError\<close>: the exception of the language when the code reads \<^verbatim>\<open>.type\<close> of
    \<^verbatim>\<open>tokens[i]\<close> for an index past the end of the array.
\<close>

datatype parse_error =
    MissingLabel
  | ExpectedLabel
  | ExpectedSubscriptNode nat
  | ExpectedSubscriptValue nat
  | ExpectedColumnNumber nat
  | MissingClosingBracket nat
  | UnexpectedToken Token nat
  | TypeError

fun isStringToken :: "Token \<Rightarrow> bool" where
  "isStringToken (STRING s) = True"
| "isStringToken (QUOTED_STRING s) = True"
| "isStringToken t = False"

fun isSTRING :: "Token \<Rightarrow> bool" where
  "isSTRING (STRING s) = True"
| "isSTRING t = False"

fun isNUMBER :: "Token \<Rightarrow> bool" where
  "isNUMBER (NUMBER n) = True"
| "isNUMBER t = False"

fun stringValue :: "Token \<Rightarrow> string" where
  "stringValue (STRING s) = s"
| "stringValue (QUOTED_STRING s) = s"
| "stringValue t = []"

definition isArrowToken :: "Token \<Rightarrow> bool" where
  "isArrowToken t = (t \<in> set [ARROW_TO, ARROW_FROM, ARROW_BOTH, ARROW_DOTTED_TO])"

text \<open>
  The arrows of a leaf are read by two nested loops.  \<open>parseArrowsInner\<close> is the inner
  \<^verbatim>\<open>while (arrowTypes.includes(tokens[current].type))\<close>: each turn reads one directive and
  either goes on after a comma or leaves the loop by \<^verbatim>\<open>break\<close>.  The result is the index
  reached and the list of arrows.
\<close>

function parseArrowsInner ::
  "Token list \<Rightarrow> nat \<Rightarrow> ArrowDirective list \<Rightarrow> parse_error + nat \<times> ArrowDirective list" where
  "parseArrowsInner tokens current arrows0 =
     (if length tokens \<le> current then Inl TypeError
      else if \<not> isArrowToken (tokens ! current) then Inr (current, arrows0)
      else
        let type = tokens ! current;
            ends_to0 = (type = ARROW_TO \<or> type = ARROW_BOTH \<or> type = ARROW_DOTTED_TO);
            ends_from0 = (type = ARROW_FROM \<or> type = ARROW_BOTH);
            dotted0 = (type = ARROW_DOTTED_TO)
        in if length tokens \<le> current + 1 then Inl TypeError
           else (case tokens ! (current + 1) of
              NUMBER target_value \<Rightarrow>
                let current2 = current + 2;
                    has_label = (current2 < length tokens \<and> isStringToken (tokens ! current2));
                    label_text = (if has_label then Some (stringValue (tokens ! current2)) else None);
                    current3 = (if has_label then current2 + 1 else current2);
                    arrows1 = arrows0 @ [\<lparr> dir_to = ends_to0, dir_from = ends_from0,
                                           dir_target = target_value, dir_label = label_text,
                                           dir_dotted = dotted0 \<rparr>]
                in if current3 < length tokens \<and> tokens ! current3 = STRING '',''
                     then parseArrowsInner tokens (current3 + 1) arrows1
                   else Inr (current3, arrows1)
            | _ \<Rightarrow> Inl (ExpectedColumnNumber (current + 1))))"
  by pat_completeness auto
termination
  by (relation "measure (\<lambda>(tokens, current, arrows0). length tokens - current)") auto

declare parseArrowsInner.simps [simp del]

lemma parseArrowsInner_progress:
  "parseArrowsInner tokens current arrows0 = Inr (current', arrows1) \<Longrightarrow>
   current \<le> current' \<and> current' \<le> length tokens \<and>
   (isArrowToken (tokens ! current) \<longrightarrow> current < current')"
proof (induction tokens current arrows0 rule: parseArrowsInner.induct)
  case (1 tokens current arrows0)
  show ?case
  proof (cases "length tokens \<le> current \<or> \<not> isArrowToken (tokens ! current) \<or> length tokens \<le> current + 1")
    case True
    then show ?thesis using "1.prems" by (auto simp: parseArrowsInner.simps[of tokens current] split: if_splits)
  next
    case False
    then obtain n where n: "tokens ! (current + 1) = NUMBER n"
      using "1.prems" by (cases "tokens ! (current + 1)") (auto simp: parseArrowsInner.simps[of tokens current] Let_def)
    show ?thesis using False n "1.prems" "1.IH"[OF _ _ refl refl refl refl _ n refl refl refl refl refl]
      by (auto simp: parseArrowsInner.simps[of tokens current] Let_def split: if_splits)
  qed
qed

text \<open>\<open>parseArrows\<close> is the outer \<^verbatim>\<open>while (current < tokens.length - 1)\<close>.\<close>

function parseArrows ::
  "Token list \<Rightarrow> nat \<Rightarrow> ArrowDirective list \<Rightarrow> parse_error + nat \<times> ArrowDirective list" where
  "parseArrows tokens current arrows0 =
     (if current + 1 < length tokens then
        (if isArrowToken (tokens ! current) then
           (case parseArrowsInner tokens current arrows0 of
              Inl e \<Rightarrow> Inl e
            | Inr (current', arrows1) \<Rightarrow> parseArrows tokens current' arrows1)
         else Inr (current, arrows0))
      else Inr (current, arrows0))"
  by pat_completeness auto
termination
proof (relation "measure (\<lambda>(tokens, current, arrows0). length tokens - current)")
  show "wf (measure (\<lambda>(tokens, current, arrows0). length tokens - current))" by simp
next
  fix tokens :: "Token list" and current :: nat and arrows0 x2 x y
  assume a: "current + 1 < length tokens" "isArrowToken (tokens ! current)"
    "parseArrowsInner tokens current arrows0 = Inr x2" "(x, y) = x2"
  then have "parseArrowsInner tokens current arrows0 = Inr (x, y)" by simp
  from parseArrowsInner_progress[OF this] a(1,2)
  show "((tokens, x, y), tokens, current, arrows0)
       \<in> measure (\<lambda>(tokens, current, arrows0). length tokens - current)"
    by auto
qed

declare parseArrows.simps [simp del]

text \<open>The first loop of \<^verbatim>\<open>parseValue\<close>: the values of the \<^verbatim>\<open>STRING\<close> tokens from
  \<open>current\<close> on.\<close>

definition stringRun :: "Token list \<Rightarrow> nat \<Rightarrow> string list" where
  "stringRun tokens current = map stringValue (takeWhile isSTRING (drop current tokens))"

text \<open>
  The optional subscript or superscript.  \<^verbatim>\<open>parseNode\<close> and \<^verbatim>\<open>parseValue\<close> hold the same
  statements twice and differ in the message they throw, which is the parameter \<open>err\<close>.
  The result is the subscript, the superscript and the index after them.
\<close>

definition parseScript ::
  "(nat \<Rightarrow> parse_error) \<Rightarrow> Token list \<Rightarrow> nat
     \<Rightarrow> parse_error + string option \<times> string option \<times> nat" where
  "parseScript err tokens current =
     (if current + 1 < length tokens \<and>
         (tokens ! current = SUBSCRIPT_PREFIX \<or> tokens ! current = SUPERSCRIPT_PREFIX)
      then
        let is_super = (tokens ! current = SUPERSCRIPT_PREFIX);
            subscript_token = tokens ! (current + 1)
        in if \<not> isStringToken subscript_token then Inl (err (current + 1))
           else if is_super then Inr (None, Some (stringValue subscript_token), current + 2)
           else Inr (Some (stringValue subscript_token), None, current + 2)
      else Inr (None, None, current))"

text \<open>
  \<^verbatim>\<open>parseValue\<close> is called by \<^verbatim>\<open>parseToken\<close> only, on a \<^verbatim>\<open>STRING\<close> or a
  \<^verbatim>\<open>QUOTED_STRING\<close> token.
\<close>

definition parseValue :: "Token list \<Rightarrow> nat \<Rightarrow> parse_error + nat \<times> SyntaxNode" where
  "parseValue tokens current =
     (if length tokens \<le> current then Inl TypeError
      else
        let values = stringRun tokens current;
            label0 = (if isSTRING (tokens ! current) then joinWith '' '' values
                      else stringValue (tokens ! current));
            current1 = (if isSTRING (tokens ! current) then current + length values
                        else current + 1)
        in (case parseScript ExpectedSubscriptValue tokens current1 of
              Inl e \<Rightarrow> Inl e
            | Inr (subscript0, superscript0, current2) \<Rightarrow>
                (case parseArrows tokens current2 [] of
                   Inl e \<Rightarrow> Inl e
                 | Inr (current3, arrows0) \<Rightarrow>
                     Inr (current3,
                          VALUE \<lparr> v_label = label0,
                                  v_subscript = subscript0,
                                  v_superscript = superscript0,
                                  v_arrows = arrows0,
                                  v_caseFeature = (if isCaseText label0 then Some label0 else None) \<rparr>))))"

text \<open>Classifying a parsed child in \<^verbatim>\<open>parseNode\<close>.\<close>

fun setCaseFeature :: "SyntaxNode \<Rightarrow> string \<Rightarrow> SyntaxNode" where
  "setCaseFeature (ROOT vs) c = ROOT vs"
| "setCaseFeature (NODE f vs) c = NODE (f\<lparr>n_caseFeature := Some c\<rparr>) vs"
| "setCaseFeature (VALUE v) c = VALUE (v\<lparr>v_caseFeature := Some c\<rparr>)"

definition splitCase :: "SyntaxNode \<Rightarrow> SyntaxNode option" where
  "splitCase value =
     (case matchCase (node_label value) of
        None \<Rightarrow> None
      | Some (g1, g2) \<Rightarrow> Some (setCaseFeature (withLabel value (trim g1)) g2))"

definition fileChild ::
  "NodeFields \<times> SyntaxNode list \<Rightarrow> SyntaxNode \<Rightarrow> NodeFields \<times> SyntaxNode list" where
  "fileChild nv value =
     (let (node, values) = nv
      in if isVALUE value \<and> isFeature (node_label value)
           then (node\<lparr>n_features := n_features node @ [node_label value]\<rparr>, values)
         else if isVALUE value \<and> isCaseText (node_label value)
           then (if length values > 0
                 then let prev = last values
                   in if \<not> truthy (node_caseFeature prev) \<and> isVALUE prev
                        then (node, butlast values @
                                [case splitCase prev of
                                   Some prev' \<Rightarrow> prev'
                                 | None \<Rightarrow> setCaseFeature prev (node_label value)])
                      else (node, values)
                 else (node, values))
         else (node, values @ [case splitCase value of Some value' \<Rightarrow> value' | None \<Rightarrow> value]))"

text \<open>
  \<^verbatim>\<open>parseToken\<close>, \<^verbatim>\<open>parseNode\<close> and the loop over the children of a node call each other.
  They carry a fuel that every call uses up; running out of it is the result \<open>None\<close>.
  \<open>parseChildren\<close> is the \<^verbatim>\<open>while\<close> loop of \<^verbatim>\<open>parseNode\<close>, on the node under
  construction and its \<^verbatim>\<open>values\<close>.  \<^verbatim>\<open>parse\<close> starts with a fuel that is always enough
  (\<open>parse_total\<close> below).
\<close>

fun parseToken :: "nat \<Rightarrow> Token list \<Rightarrow> nat \<Rightarrow> (parse_error + nat \<times> SyntaxNode) option"
  and parseNode :: "nat \<Rightarrow> Token list \<Rightarrow> nat \<Rightarrow> (parse_error + nat \<times> SyntaxNode) option"
  and parseChildren ::
    "nat \<Rightarrow> Token list \<Rightarrow> nat \<Rightarrow> NodeFields \<times> SyntaxNode list
       \<Rightarrow> (parse_error + nat \<times> NodeFields \<times> SyntaxNode list) option"
  where
  "parseToken 0 tokens current = None"
| "parseToken (Suc fuel) tokens current =
     (if length tokens \<le> current then Some (Inl TypeError)
      else (case tokens ! current of
              BRACKET_OPEN \<Rightarrow> parseNode fuel tokens current
            | STRING s \<Rightarrow> Some (parseValue tokens current)
            | QUOTED_STRING s \<Rightarrow> Some (parseValue tokens current)
            | t \<Rightarrow> Some (Inl (UnexpectedToken t current))))"
| "parseNode fuel tokens current =
     (if current + 2 > length tokens then Some (Inl MissingLabel)
      else if \<not> isStringToken (tokens ! (current + 1)) then Some (Inl ExpectedLabel)
      else
        (case parseScript ExpectedSubscriptNode tokens (current + 2) of
           Inl e \<Rightarrow> Some (Inl e)
         | Inr (subscript0, superscript0, current2) \<Rightarrow>
             let node = \<lparr> n_label = stringValue (tokens ! (current + 1)),
                          n_subscript = subscript0,
                          n_superscript = superscript0,
                          n_features = [],
                          n_caseFeature = None \<rparr>
             in (case parseChildren fuel tokens current2 (node, []) of
                   None \<Rightarrow> None
                 | Some (Inl e) \<Rightarrow> Some (Inl e)
                 | Some (Inr (current3, node', values)) \<Rightarrow>
                     if length tokens \<le> current3
                       then Some (Inl (MissingClosingBracket (current3 - 1)))
                     else Some (Inr (current3 + 1, NODE node' values)))))"
| "parseChildren 0 tokens current nv = None"
| "parseChildren (Suc fuel) tokens current nv =
     (if current < length tokens \<and> tokens ! current \<noteq> BRACKET_CLOSE then
        (case parseToken fuel tokens current of
           None \<Rightarrow> None
         | Some (Inl e) \<Rightarrow> Some (Inl e)
         | Some (Inr (current', value)) \<Rightarrow> parseChildren fuel tokens current' (fileChild nv value))
      else Some (Inr (current, nv)))"

fun parseLoop ::
  "nat \<Rightarrow> Token list \<Rightarrow> nat \<Rightarrow> SyntaxNode list \<Rightarrow> (parse_error + SyntaxNode) option" where
  "parseLoop 0 tokens current values = None"
| "parseLoop (Suc fuel) tokens current values =
     (if current < length tokens then
        (case parseToken fuel tokens current of
           None \<Rightarrow> None
         | Some (Inl e) \<Rightarrow> Some (Inl e)
         | Some (Inr (current', node)) \<Rightarrow> parseLoop fuel tokens current' (values @ [node]))
      else Some (Inr (ROOT values)))"

definition parse :: "Token list \<Rightarrow> (parse_error + SyntaxNode) option" where
  "parse tokens = parseLoop (2 * length tokens + 2) tokens 0 []"

subsection \<open>Every call consumes tokens, and the fuel of \<open>parse\<close> suffices\<close>

lemma parseArrows_progress:
  "parseArrows tokens current arrows0 = Inr (current', arrows1) \<Longrightarrow>
   current \<le> current' \<and> (current \<le> length tokens \<longrightarrow> current' \<le> length tokens)"
proof (induction tokens current arrows0 rule: parseArrows.induct)
  case (1 tokens current arrows0)
  show ?case
  proof (cases "current + 1 < length tokens \<and> isArrowToken (tokens ! current)")
    case False
    then show ?thesis using "1.prems"
      by (auto simp: parseArrows.simps[of tokens current] split: if_splits)
  next
    case True
    then obtain c2 a2 where i: "parseArrowsInner tokens current arrows0 = Inr (c2, a2)"
      and r: "parseArrows tokens c2 a2 = Inr (current', arrows1)"
      using "1.prems" by (auto simp: parseArrows.simps[of tokens current] split: sum.splits)
    from parseArrowsInner_progress[OF i] have p: "current \<le> c2" "c2 \<le> length tokens" by auto
    from "1.IH"[OF _ _ i refl r] True have "c2 \<le> current'" "c2 \<le> length tokens \<longrightarrow> current' \<le> length tokens"
      by auto
    with p show ?thesis by auto
  qed
qed

lemma parseScript_progress:
  "parseScript err tokens current = Inr (sub0, sup0, current') \<Longrightarrow>
   current \<le> current' \<and> (current \<le> length tokens \<longrightarrow> current' \<le> length tokens)"
  by (auto simp: parseScript_def Let_def split: if_splits)

lemma stringRun_length:
  "current + length (stringRun tokens current) \<le> length tokens"
  if "current \<le> length tokens"
proof -
  have "length (takeWhile isSTRING (drop current tokens)) \<le> length (drop current tokens)"
    by (rule length_takeWhile_le)
  then show ?thesis using that by (simp add: stringRun_def)
qed

lemma stringRun_nonempty:
  "current < length tokens \<Longrightarrow> isSTRING (tokens ! current) \<Longrightarrow> 0 < length (stringRun tokens current)"
  by (cases "drop current tokens") (auto simp: stringRun_def hd_drop_conv_nth dest: arg_cong[where f=hd])

lemma parseValue_progress:
  assumes "parseValue tokens current = Inr (current', v)"
  shows "current < current' \<and> current' \<le> length tokens"
proof -
  have lt: "current < length tokens" using assms by (auto simp: parseValue_def split: if_splits)
  define current1 where "current1 = (if isSTRING (tokens ! current)
      then current + length (stringRun tokens current) else current + 1)"
  have c1: "current < current1" "current1 \<le> length tokens"
    using lt stringRun_nonempty[of current tokens] stringRun_length[of current tokens]
    by (auto simp: current1_def)
  from assms lt obtain sub0 sup0 current2 arrows0 where
    s: "parseScript ExpectedSubscriptValue tokens current1 = Inr (sub0, sup0, current2)"
    and a: "parseArrows tokens current2 [] = Inr (current', arrows0)"
    by (auto simp: parseValue_def Let_def current1_def split: sum.splits)
  from parseScript_progress[OF s] parseArrows_progress[OF a] c1
  show ?thesis by auto
qed

definition advances :: "Token list \<Rightarrow> nat \<Rightarrow> (parse_error + nat \<times> 'a) option \<Rightarrow> bool" where
  "advances tokens current r =
     (case r of Some (Inr (current', x)) \<Rightarrow> current < current' \<and> current' \<le> length tokens
      | _ \<Rightarrow> True)"

definition keepsUp :: "Token list \<Rightarrow> nat \<Rightarrow> (parse_error + nat \<times> 'a) option \<Rightarrow> bool" where
  "keepsUp tokens current r =
     (case r of Some (Inr (current', x)) \<Rightarrow>
        current \<le> current' \<and> (current \<le> length tokens \<longrightarrow> current' \<le> length tokens)
      | _ \<Rightarrow> True)"

lemma parseNode_advances:
  assumes C: "\<And>c nv. keepsUp tokens c (parseChildren fuel tokens c nv)"
  shows "advances tokens current (parseNode fuel tokens current)"
proof (cases "parseNode fuel tokens current")
  case None
  then show ?thesis by (simp add: advances_def)
next
  case (Some r)
  show ?thesis
  proof (cases r)
    case (Inl e)
    then show ?thesis using Some by (simp add: advances_def)
  next
    case (Inr p)
    obtain current' v where p: "p = (current', v)" by force
    have a: "parseNode fuel tokens current = Some (Inr (current', v))" using Some Inr p by simp
    then have c: "current + 2 \<le> length tokens" "isStringToken (tokens ! (current + 1))"
      by (auto split: if_splits)
    from a c obtain sub0 sup0 current2 where
      s: "parseScript ExpectedSubscriptNode tokens (current + 2) = Inr (sub0, sup0, current2)"
      by (auto split: sum.splits)
    define node where "node = \<lparr> n_label = stringValue (tokens ! (current + 1)),
                          n_subscript = sub0, n_superscript = sup0,
                          n_features = [], n_caseFeature = None \<rparr>"
    from a c s obtain current3 node' vals where
      ch: "parseChildren fuel tokens current2 (node, []) = Some (Inr (current3, node', vals))"
      and r: "current' = current3 + 1" "current3 < length tokens"
      by (auto simp: Let_def node_def split: option.splits sum.splits if_splits)
    from parseScript_progress[OF s] c have "current + 2 \<le> current2" by simp
    moreover from C[of current2 "(node, [])"] ch have "current2 \<le> current3"
      by (simp add: keepsUp_def)
    ultimately show ?thesis using r a by (simp add: advances_def)
  qed
qed

lemma parseToken_advances:
  assumes N: "\<And>c. advances tokens c (parseNode fuel tokens c)"
  shows "advances tokens current (parseToken (Suc fuel) tokens current)"
proof (cases "length tokens \<le> current")
  case True
  then show ?thesis by (simp add: advances_def)
next
  case False
  have v: "advances tokens current (Some (parseValue tokens current))"
    using parseValue_progress[of tokens current]
    by (cases "parseValue tokens current") (auto simp: advances_def)
  show ?thesis using False N[of current] v
    by (cases "tokens ! current") (simp_all add: advances_def)
qed

lemma parseChildren_keepsUp:
  assumes T: "\<And>c. advances tokens c (parseToken fuel tokens c)"
    and C: "\<And>c nv. keepsUp tokens c (parseChildren fuel tokens c nv)"
  shows "keepsUp tokens current (parseChildren (Suc fuel) tokens current nv)"
proof (cases "current < length tokens \<and> tokens ! current \<noteq> BRACKET_CLOSE")
  case False
  then show ?thesis by (auto simp: keepsUp_def)
next
  case True
  show ?thesis
  proof (cases "parseToken fuel tokens current")
    case None
    then show ?thesis using True by (simp add: keepsUp_def)
  next
    case (Some r)
    show ?thesis
    proof (cases r)
      case (Inl e)
      then show ?thesis using True Some by (simp add: keepsUp_def)
    next
      case (Inr p)
      obtain c2 val where p: "p = (c2, val)" by force
      have t: "parseToken fuel tokens current = Some (Inr (c2, val))" using Some Inr p by simp
      then have lt: "current < c2" "c2 \<le> length tokens" using T[of current] by (auto simp: advances_def)
      have eq: "parseChildren (Suc fuel) tokens current nv =
          parseChildren fuel tokens c2 (fileChild nv val)" using True t by simp
      show ?thesis unfolding eq using C[of c2 "fileChild nv val"] lt
        by (auto simp: keepsUp_def split: option.splits sum.splits)
    qed
  qed
qed

lemma parse_progress:
  "advances tokens c (parseToken fuel tokens c) \<and>
   advances tokens c (parseNode fuel tokens c) \<and>
   keepsUp tokens c (parseChildren fuel tokens c nv)"
proof (induction fuel arbitrary: c nv)
  case 0
  have C: "\<And>c nv. keepsUp tokens c (parseChildren 0 tokens c nv)" by (simp add: keepsUp_def)
  show ?case using parseNode_advances[of tokens 0, OF C] C by (simp add: advances_def)
next
  case (Suc fuel)
  have C: "keepsUp tokens c (parseChildren (Suc fuel) tokens c nv)" for c nv
    by (rule parseChildren_keepsUp) (use Suc in blast)+
  have N: "advances tokens c (parseNode (Suc fuel) tokens c)" for c
    by (rule parseNode_advances) (rule C)
  have T: "advances tokens c (parseToken (Suc fuel) tokens c)" for c
    by (rule parseToken_advances) (use Suc in blast)
  show ?case using C N T by blast
qed

lemma parseNode_fuel:
  assumes C: "\<And>c nv. 2 * (length tokens - c) + 2 \<le> fuel \<Longrightarrow> parseChildren fuel tokens c nv \<noteq> None"
    and f: "2 * (length tokens - current) \<le> fuel + 2"
  shows "parseNode fuel tokens current \<noteq> None"
proof (cases "current + 2 \<le> length tokens \<and> isStringToken (tokens ! (current + 1))")
  case False
  then show ?thesis by auto
next
  case True
  show ?thesis
  proof (cases "parseScript ExpectedSubscriptNode tokens (current + 2)")
    case (Inl e)
    then show ?thesis using True by simp
  next
    case (Inr p)
    obtain sub0 sup0 current2 where p: "p = (sub0, sup0, current2)" by (cases p) auto
    have s: "parseScript ExpectedSubscriptNode tokens (current + 2) = Inr (sub0, sup0, current2)"
      using Inr p by simp
    from parseScript_progress[OF s] have "current + 2 \<le> current2" by simp
    then have "2 * (length tokens - current2) + 2 \<le> fuel" using f True by auto
    then have "parseChildren fuel tokens current2 nv \<noteq> None" for nv by (rule C)
    then show ?thesis using True s
      by (auto simp: Let_def split: option.splits sum.splits)
  qed
qed

lemma parseToken_fuel:
  assumes N: "\<And>c. 2 * (length tokens - c) \<le> fuel + 2 \<Longrightarrow> parseNode fuel tokens c \<noteq> None"
    and f: "2 * (length tokens - current) + 1 \<le> Suc fuel"
  shows "parseToken (Suc fuel) tokens current \<noteq> None"
proof -
  have "parseNode fuel tokens current \<noteq> None" using f by (intro N) simp
  then show ?thesis by (cases "tokens ! current") auto
qed

lemma parseChildren_fuel:
  assumes T: "\<And>c. 2 * (length tokens - c) + 1 \<le> fuel \<Longrightarrow> parseToken fuel tokens c \<noteq> None"
    and C: "\<And>c nv. 2 * (length tokens - c) + 2 \<le> fuel \<Longrightarrow> parseChildren fuel tokens c nv \<noteq> None"
    and f: "2 * (length tokens - current) + 2 \<le> Suc fuel"
  shows "parseChildren (Suc fuel) tokens current nv \<noteq> None"
proof (cases "current < length tokens \<and> tokens ! current \<noteq> BRACKET_CLOSE")
  case False
  then show ?thesis by auto
next
  case True
  have "parseToken fuel tokens current \<noteq> None" using f by (intro T) simp
  then obtain r where r: "parseToken fuel tokens current = Some r" by auto
  show ?thesis
  proof (cases r)
    case (Inl e)
    then show ?thesis using True r by simp
  next
    case (Inr p)
    obtain c2 val where p: "p = (c2, val)" by force
    have t: "parseToken fuel tokens current = Some (Inr (c2, val))" using r Inr p by simp
    have "advances tokens current (parseToken fuel tokens current)" using parse_progress by blast
    then have lt: "current < c2" "c2 \<le> length tokens" using t by (auto simp: advances_def)
    then have "2 * (length tokens - c2) + 2 \<le> fuel" using f by auto
    then have "parseChildren fuel tokens c2 (fileChild nv val) \<noteq> None" by (rule C)
    then show ?thesis using True t by simp
  qed
qed

lemma enough_fuel:
  "(2 * (length tokens - c) + 1 \<le> fuel \<longrightarrow> parseToken fuel tokens c \<noteq> None) \<and>
   (2 * (length tokens - c) \<le> fuel + 2 \<longrightarrow> parseNode fuel tokens c \<noteq> None) \<and>
   (2 * (length tokens - c) + 2 \<le> fuel \<longrightarrow> parseChildren fuel tokens c nv \<noteq> None)"
proof (induction fuel arbitrary: c nv)
  case 0
  have "parseNode 0 tokens c \<noteq> None" if "2 * (length tokens - c) \<le> 2"
    by (rule parseNode_fuel) (use that in auto)
  then show ?case by auto
next
  case (Suc fuel)
  have C: "2 * (length tokens - c) + 2 \<le> Suc fuel \<Longrightarrow> parseChildren (Suc fuel) tokens c nv \<noteq> None"
    for c nv
    by (rule parseChildren_fuel) (use Suc in blast)+
  have N: "2 * (length tokens - c) \<le> Suc fuel + 2 \<Longrightarrow> parseNode (Suc fuel) tokens c \<noteq> None" for c
    by (rule parseNode_fuel) (use C in blast)+
  have T: "2 * (length tokens - c) + 1 \<le> Suc fuel \<Longrightarrow> parseToken (Suc fuel) tokens c \<noteq> None" for c
    by (rule parseToken_fuel) (use Suc in blast)+
  show ?case using C N T by blast
qed

lemma parseLoop_fuel:
  "2 * (length tokens - c) + 2 \<le> fuel \<Longrightarrow> parseLoop fuel tokens c vs \<noteq> None"
proof (induction fuel arbitrary: c vs)
  case 0
  then show ?case by simp
next
  case (Suc fuel)
  show ?case
  proof (cases "c < length tokens")
    case False
    then show ?thesis by simp
  next
    case True
    have "parseToken fuel tokens c \<noteq> None" using enough_fuel[of tokens c fuel] Suc.prems by simp
    then obtain r where r: "parseToken fuel tokens c = Some r" by auto
    show ?thesis
    proof (cases r)
      case (Inl e)
      then show ?thesis using True r by simp
    next
      case (Inr p)
      obtain c2 val where p: "p = (c2, val)" by force
      have t: "parseToken fuel tokens c = Some (Inr (c2, val))" using r Inr p by simp
      have "advances tokens c (parseToken fuel tokens c)" using parse_progress by blast
      then have lt: "c < c2" "c2 \<le> length tokens" using t by (auto simp: advances_def)
      then have "2 * (length tokens - c2) + 2 \<le> fuel" using Suc.prems by auto
      then have "parseLoop fuel tokens c2 (vs @ [val]) \<noteq> None" by (rule Suc.IH)
      then show ?thesis using True t by simp
    qed
  qed
qed

lemma parse_total: "\<exists>r. parse tokens = Some r"
  using parseLoop_fuel[of tokens 0 "2 * length tokens + 2" "[]"] by (auto simp: parse_def)

subsection \<open>Arrow directives: claim C1\<close>

text \<open>
  The directive the specification describes for an arrow operator, a target and an
  optional label: \<^verbatim>\<open>->\<close> ends at the target only, \<^verbatim>\<open><-\<close> at the source only, \<^verbatim>\<open><>\<close>
  at both, \<^verbatim>\<open>.>\<close> at the target and is dotted.  \<open>labelAfter\<close> is the optional label at an
  index (the value of a string or quoted-string token there), \<open>afterLabel\<close> the index
  after it, \<open>commaAt\<close> the test for the separator.
\<close>

fun directiveOf :: "Token \<Rightarrow> nat \<Rightarrow> string option \<Rightarrow> ArrowDirective" where
  "directiveOf ARROW_TO n l =
     \<lparr> dir_to = True, dir_from = False, dir_target = n, dir_label = l, dir_dotted = False \<rparr>"
| "directiveOf ARROW_FROM n l =
     \<lparr> dir_to = False, dir_from = True, dir_target = n, dir_label = l, dir_dotted = False \<rparr>"
| "directiveOf ARROW_BOTH n l =
     \<lparr> dir_to = True, dir_from = True, dir_target = n, dir_label = l, dir_dotted = False \<rparr>"
| "directiveOf ARROW_DOTTED_TO n l =
     \<lparr> dir_to = True, dir_from = False, dir_target = n, dir_label = l, dir_dotted = True \<rparr>"
| "directiveOf t n l =
     \<lparr> dir_to = False, dir_from = False, dir_target = n, dir_label = l, dir_dotted = False \<rparr>"

definition labelAfter :: "Token list \<Rightarrow> nat \<Rightarrow> string option" where
  "labelAfter tokens i =
     (if i < length tokens \<and> isStringToken (tokens ! i) then Some (stringValue (tokens ! i))
      else None)"

definition afterLabel :: "Token list \<Rightarrow> nat \<Rightarrow> nat" where
  "afterLabel tokens i = (if i < length tokens \<and> isStringToken (tokens ! i) then i + 1 else i)"

definition commaAt :: "Token list \<Rightarrow> nat \<Rightarrow> bool" where
  "commaAt tokens i = (i < length tokens \<and> tokens ! i = STRING '','')"

lemma inner_no_number:
  assumes "isArrowToken (tokens ! current)" "current + 1 < length tokens"
    "\<not> isNUMBER (tokens ! (current + 1))"
  shows "parseArrowsInner tokens current arrows0 = Inl (ExpectedColumnNumber (current + 1))"
  using assms
  by (cases "tokens ! (current + 1)") (simp_all add: parseArrowsInner.simps[of tokens current] Let_def)

lemma inner_number:
  assumes "isArrowToken (tokens ! current)" "current + 1 < length tokens"
    "tokens ! (current + 1) = NUMBER n"
  shows "parseArrowsInner tokens current arrows0 =
     (let d = directiveOf (tokens ! current) n (labelAfter tokens (current + 2));
          j = afterLabel tokens (current + 2)
      in if commaAt tokens j then parseArrowsInner tokens (j + 1) (arrows0 @ [d])
         else Inr (j, arrows0 @ [d]))"
proof -
  have d: "\<lparr> dir_to = (tokens ! current = ARROW_TO \<or> tokens ! current = ARROW_BOTH \<or>
                        tokens ! current = ARROW_DOTTED_TO),
              dir_from = (tokens ! current = ARROW_FROM \<or> tokens ! current = ARROW_BOTH),
              dir_target = n, dir_label = l,
              dir_dotted = (tokens ! current = ARROW_DOTTED_TO) \<rparr>
           = directiveOf (tokens ! current) n l" for l
    using assms(1) by (cases "tokens ! current") (simp_all add: isArrowToken_def)
  show ?thesis using assms
    by (subst parseArrowsInner.simps)
      (simp add: Let_def d labelAfter_def afterLabel_def commaAt_def)
qed

lemma outer_step:
  assumes "isArrowToken (tokens ! current)" "current + 1 < length tokens"
  shows "parseArrows tokens current arrows0 =
     (case parseArrowsInner tokens current arrows0 of
        Inl e \<Rightarrow> Inl e
      | Inr (current', arrows1) \<Rightarrow> parseArrows tokens current' arrows1)"
  using assms by (simp add: parseArrows.simps[of tokens current])

lemma inner_no_TypeError:
  "current < length tokens \<Longrightarrow> last tokens = BRACKET_CLOSE \<Longrightarrow>
   parseArrowsInner tokens current arrows0 \<noteq> Inl TypeError"
proof (induction "length tokens - current" arbitrary: current arrows0 rule: less_induct)
  case less
  have ne: "tokens \<noteq> []" using less.prems by auto
  have lastc: "tokens ! (length tokens - 1) = BRACKET_CLOSE"
    using less.prems(2) ne by (simp add: last_conv_nth)
  show ?case
  proof (cases "isArrowToken (tokens ! current)")
    case False
    then show ?thesis using less.prems by (simp add: parseArrowsInner.simps[of tokens current])
  next
    case True
    then have "current \<noteq> length tokens - 1" using lastc by (auto simp: isArrowToken_def)
    then have c1: "current + 1 < length tokens" using less.prems(1) by simp
    show ?thesis
    proof (cases "isNUMBER (tokens ! (current + 1))")
      case False
      then show ?thesis using inner_no_number[OF True c1] by simp
    next
      case num: True
      then obtain n where n: "tokens ! (current + 1) = NUMBER n"
        by (cases "tokens ! (current + 1)") auto
      let ?j = "afterLabel tokens (current + 2)"
      have jge: "current + 2 \<le> ?j" by (simp add: afterLabel_def)
      show ?thesis
      proof (cases "commaAt tokens ?j")
        case False
        then show ?thesis using inner_number[OF True c1 n] by (simp add: Let_def)
      next
        case comma: True
        then have "?j \<noteq> length tokens - 1" using lastc by (auto simp: commaAt_def)
        moreover have "?j < length tokens" using comma by (simp add: commaAt_def)
        ultimately have j1: "?j + 1 < length tokens" by arith
        have "length tokens - (?j + 1) < length tokens - current" using jge j1 by arith
        then have "parseArrowsInner tokens (?j + 1)
            (arrows0 @ [directiveOf (tokens ! current) n (labelAfter tokens (current + 2))])
              \<noteq> Inl TypeError"
          using j1 less.prems(2) by (intro less.hyps) auto
        then show ?thesis using inner_number[OF True c1 n] comma by (simp add: Let_def)
      qed
    qed
  qed
qed

lemma parseValue_arrows:
  assumes "parseValue tokens c = Inr (c', leaf)"
  shows "\<exists>c2. c < c2 \<and> parseArrows tokens c2 [] = Inr (c', node_arrows leaf)"
proof -
  have lt: "c < length tokens" using assms by (auto simp: parseValue_def split: if_splits)
  define current1 where "current1 = (if isSTRING (tokens ! c)
      then c + length (stringRun tokens c) else c + 1)"
  have c1: "c < current1"
    using lt stringRun_nonempty[of c tokens] by (auto simp: current1_def)
  from assms lt obtain sub0 sup0 current2 arrows0 where
    s: "parseScript ExpectedSubscriptValue tokens current1 = Inr (sub0, sup0, current2)"
    and a: "parseArrows tokens current2 [] = Inr (c', arrows0)"
    and l: "node_arrows leaf = arrows0"
    by (auto simp: parseValue_def Let_def current1_def split: sum.splits)
  from parseScript_progress[OF s] c1 have "c < current2" by simp
  then show ?thesis using a l by auto
qed

definition arrowTokens :: "Token list" where
  "arrowTokens = [QUOTED_STRING ''-ed'', ARROW_DOTTED_TO, NUMBER 5,
     QUOTED_STRING ''Tense-Lowering'', STRING '','', ARROW_DOTTED_TO, NUMBER 2,
     QUOTED_STRING ''nominative case'', BRACKET_CLOSE]"

lemma parseValue_arrowTokens:
  "parseValue arrowTokens 0 =
     Inr (8, VALUE \<lparr> v_label = ''-ed'', v_subscript = None, v_superscript = None,
                     v_arrows = [directiveOf ARROW_DOTTED_TO 5 (Some ''Tense-Lowering''),
                                 directiveOf ARROW_DOTTED_TO 2 (Some ''nominative case'')],
                     v_caseFeature = None \<rparr>)"
  by (simp add: parseValue_def arrowTokens_def stringRun_def parseScript_def Let_def
      parseArrows.simps parseArrowsInner.simps isArrowToken_def isCaseText_def)

text \<open>
  What the loops do at an arrow operator that is followed by a token: when that token is
  not a number the leaf is rejected with the error that names the index of that token;
  when it is the number \<open>n\<close>, one directive is added, with target \<open>n\<close>, the flags of the
  operator and the following string or quoted-string token (if there is one) as its label,
  and after it an unquoted-string token \<^verbatim>\<open>,\<close> makes the loop read another directive, while
  anything else ends it.  The label is read before the separator is looked for, so a
  \<^verbatim>\<open>,\<close> that follows the number is the label.  The outer loop reads directives as long as
  an arrow operator comes next.  On a token sequence that ends with a closing bracket no
  other error arises in the loop, and the arrows of a parsed leaf are those this loop
  returns.
\<close>

lemma arrow_step:
  assumes "isArrowToken (tokens ! current)" and "current + 1 < length tokens"
  shows "(\<not> isNUMBER (tokens ! (current + 1)) \<longrightarrow>
            parseArrowsInner tokens current arrows0 = Inl (ExpectedColumnNumber (current + 1)) \<and>
            parseArrows tokens current arrows0 = Inl (ExpectedColumnNumber (current + 1))) \<and>
         (\<forall>n. tokens ! (current + 1) = NUMBER n \<longrightarrow>
            parseArrowsInner tokens current arrows0 =
              (let d = directiveOf (tokens ! current) n (labelAfter tokens (current + 2));
                   j = afterLabel tokens (current + 2)
               in if commaAt tokens j then parseArrowsInner tokens (j + 1) (arrows0 @ [d])
                  else Inr (j, arrows0 @ [d]))) \<and>
         parseArrows tokens current arrows0 =
           (case parseArrowsInner tokens current arrows0 of
              Inl e \<Rightarrow> Inl e
            | Inr (current', arrows1) \<Rightarrow> parseArrows tokens current' arrows1) \<and>
         (last tokens = BRACKET_CLOSE \<longrightarrow>
            parseArrowsInner tokens current arrows0 \<noteq> Inl TypeError) \<and>
         (parseValue tokens c = Inr (c', leaf) \<longrightarrow>
            (\<exists>c2. c < c2 \<and> parseArrows tokens c2 [] = Inr (c', node_arrows leaf)))"
proof (intro conjI impI allI)
  assume nn: "\<not> isNUMBER (tokens ! (current + 1))"
  show i: "parseArrowsInner tokens current arrows0 = Inl (ExpectedColumnNumber (current + 1))"
    using assms nn by (rule inner_no_number)
  show "parseArrows tokens current arrows0 = Inl (ExpectedColumnNumber (current + 1))"
    using outer_step[OF assms] i by simp
next
  fix n assume "tokens ! (current + 1) = NUMBER n"
  with assms show "parseArrowsInner tokens current arrows0 =
              (let d = directiveOf (tokens ! current) n (labelAfter tokens (current + 2));
                   j = afterLabel tokens (current + 2)
               in if commaAt tokens j then parseArrowsInner tokens (j + 1) (arrows0 @ [d])
                  else Inr (j, arrows0 @ [d]))" by (rule inner_number)
next
  show "parseArrows tokens current arrows0 =
           (case parseArrowsInner tokens current arrows0 of
              Inl e \<Rightarrow> Inl e
            | Inr (current', arrows1) \<Rightarrow> parseArrows tokens current' arrows1)"
    using assms by (rule outer_step)
next
  assume "last tokens = BRACKET_CLOSE"
  then show "parseArrowsInner tokens current arrows0 \<noteq> Inl TypeError"
    using assms(2) by (intro inner_no_TypeError) auto
next
  assume "parseValue tokens c = Inr (c', leaf)"
  then show "\<exists>c2. c < c2 \<and> parseArrows tokens c2 [] = Inr (c', node_arrows leaf)"
    by (rule parseValue_arrows)
qed

lemma arrow_step_example:
  "parseArrowsInner arrowTokens 1 [] =
     parseArrowsInner arrowTokens 5 [directiveOf ARROW_DOTTED_TO 5 (Some ''Tense-Lowering'')] \<and>
   parseArrows [STRING ''a'', ARROW_TO, STRING ''x'', BRACKET_CLOSE] 1 []
     = Inl (ExpectedColumnNumber 2) \<and>
   parseValue arrowTokens 0 =
     Inr (8, VALUE \<lparr> v_label = ''-ed'', v_subscript = None, v_superscript = None,
                     v_arrows = [directiveOf ARROW_DOTTED_TO 5 (Some ''Tense-Lowering''),
                                 directiveOf ARROW_DOTTED_TO 2 (Some ''nominative case'')],
                     v_caseFeature = None \<rparr>)"
proof -
  have a: "isArrowToken (arrowTokens ! 1)" "1 + 1 < length arrowTokens"
    by (simp_all add: arrowTokens_def isArrowToken_def)
  have t: "arrowTokens ! 1 = ARROW_DOTTED_TO" "arrowTokens ! (1 + 1) = NUMBER 5"
    "labelAfter arrowTokens (1 + 2) = Some ''Tense-Lowering''"
    "afterLabel arrowTokens (1 + 2) = 4" "commaAt arrowTokens 4"
    by (simp_all add: arrowTokens_def labelAfter_def afterLabel_def commaAt_def)
  have 1: "parseArrowsInner arrowTokens 1 [] =
     parseArrowsInner arrowTokens 5 [directiveOf ARROW_DOTTED_TO 5 (Some ''Tense-Lowering'')]"
    using arrow_step [OF a, of "[]"] t by (simp add: Let_def)
  have c: "isArrowToken ([STRING ''a'', ARROW_TO, STRING ''x'', BRACKET_CLOSE] ! 1)"
    "1 + 1 < length [STRING ''a'', ARROW_TO, STRING ''x'', BRACKET_CLOSE]"
    by (simp_all add: isArrowToken_def)
  have 2: "parseArrows [STRING ''a'', ARROW_TO, STRING ''x'', BRACKET_CLOSE] 1 []
     = Inl (ExpectedColumnNumber 2)"
    using arrow_step [OF c, of "[]"] by simp
  show ?thesis using 1 2 parseValue_arrowTokens by simp
qed

text \<open>
  The tokens of \<^verbatim>\<open>[S [A a] [B b ->1 , <-1]]\<close>: the second leaf has two arrows, without
  labels, separated by a comma.  The pre-check accepts them.
\<close>

definition commaTokens :: "Token list" where
  "commaTokens = [BRACKET_OPEN, STRING ''S'',
                    BRACKET_OPEN, STRING ''A'', STRING ''a'', BRACKET_CLOSE,
                    BRACKET_OPEN, STRING ''B'', STRING ''b'', ARROW_TO, NUMBER 1, STRING '','',
                      ARROW_FROM, NUMBER 1, BRACKET_CLOSE,
                  BRACKET_CLOSE]"

lemma validate_commaTokens: "validateTokens commaTokens = Inr ()"
  by (simp add: validateTokens_def commaTokens_def countOpenBrackets_def countStep_def)

lemma parse_commaTokens:
  "parse commaTokens = Some (Inr (ROOT [plainNode ''S''
      [plainNode ''A'' [plainValue ''a''],
       plainNode ''B''
         [VALUE \<lparr> v_label = ''b'', v_subscript = None, v_superscript = None,
                  v_arrows = [directiveOf ARROW_TO 1 (Some '',''), directiveOf ARROW_FROM 1 None],
                  v_caseFeature = None \<rparr>]]]))"
  by code_simp

text \<open>
  Claim C1 has the label of a directive optional and a following \<^verbatim>\<open>,\<close> continue with
  another directive, and the comment of \<^verbatim>\<open>parseValue\<close> says the arrows are separated by
  commas.  For \<^verbatim>\<open>[S [A a] [B b ->1 , <-1]]\<close> the comma is taken as the label of the first
  arrow: the test for a label comes first and accepts every unquoted string.  Both arrows
  are still read, because the outer loop goes on at the next arrow operator.  Where a
  label comes before the comma (\<open>arrowTokens\<close>) the comma separates, as the claim says.
\<close>

theorem comma_after_target_is_label:
  "parse commaTokens = Some (Inr (ROOT [plainNode ''S''
      [plainNode ''A'' [plainValue ''a''],
       plainNode ''B''
         [VALUE \<lparr> v_label = ''b'', v_subscript = None, v_superscript = None,
                  v_arrows = [\<lparr> dir_to = True, dir_from = False, dir_target = 1,
                                dir_label = Some '','', dir_dotted = False \<rparr>,
                              \<lparr> dir_to = False, dir_from = True, dir_target = 1,
                                dir_label = None, dir_dotted = False \<rparr>],
                  v_caseFeature = None \<rparr>]]])) \<and>
   parseValue arrowTokens 0 =
     Inr (8, VALUE \<lparr> v_label = ''-ed'', v_subscript = None, v_superscript = None,
                     v_arrows = [\<lparr> dir_to = True, dir_from = False, dir_target = 5,
                                   dir_label = Some ''Tense-Lowering'', dir_dotted = True \<rparr>,
                                 \<lparr> dir_to = True, dir_from = False, dir_target = 2,
                                   dir_label = Some ''nominative case'', dir_dotted = True \<rparr>],
                     v_caseFeature = None \<rparr>)"
  using parse_commaTokens parseValue_arrowTokens by simp

subsection \<open>How the children of a node are filed\<close>

text \<open>
  What holds of every child of a node in a parsed tree: the features of a node all begin
  with \<^verbatim>\<open>+\<close>; a child that has no case feature has a label the pattern
  \<^verbatim>\<open>/^(.*)\s*(\{.*\})$/\<close> does not match, and if it is a leaf its label does not begin with
  \<^verbatim>\<open>+\<close>.
\<close>

definition filedChild :: "SyntaxNode \<Rightarrow> bool" where
  "filedChild c =
     (node_caseFeature c = None \<longrightarrow>
        matchCase (node_label c) = None \<and> (isVALUE c \<longrightarrow> \<not> isFeature (node_label c)))"

fun wellFiled :: "SyntaxNode \<Rightarrow> bool" where
  "wellFiled (ROOT vs) = (\<forall>v \<in> set vs. wellFiled v)"
| "wellFiled (NODE f vs) =
     ((\<forall>s \<in> set (n_features f). isFeature s) \<and> (\<forall>c \<in> set vs. filedChild c \<and> wellFiled c))"
| "wellFiled (VALUE v) = True"

definition nodeInv :: "NodeFields \<times> SyntaxNode list \<Rightarrow> bool" where
  "nodeInv nv =
     ((\<forall>s \<in> set (n_features (fst nv)). isFeature s) \<and>
      (\<forall>c \<in> set (snd nv). filedChild c \<and> wellFiled c))"

lemma wellFiled_withLabel: "wellFiled (withLabel v l) = wellFiled v"
  by (cases v) simp_all

lemma wellFiled_setCaseFeature: "wellFiled (setCaseFeature v c) = wellFiled v"
  by (cases v) simp_all

lemma caseFeature_setCaseFeature: "\<not> isROOT v \<Longrightarrow> node_caseFeature (setCaseFeature v c) = Some c"
  by (cases v) simp_all

lemma isROOT_withLabel: "isROOT (withLabel v l) = isROOT v"
  by (cases v) simp_all

lemma splitCase_filed:
  "splitCase v = Some v' \<Longrightarrow> \<not> isROOT v \<Longrightarrow> filedChild v' \<and> wellFiled v' = wellFiled v"
  by (auto simp: splitCase_def filedChild_def caseFeature_setCaseFeature isROOT_withLabel
      wellFiled_setCaseFeature wellFiled_withLabel split: option.splits)

lemma splitCase_None: "splitCase v = None \<Longrightarrow> matchCase (node_label v) = None"
  by (auto simp: splitCase_def split: option.splits)

lemma fileChild_inv:
  assumes inv: "nodeInv nv" and wf: "wellFiled val" and nr: "\<not> isROOT val"
  shows "nodeInv (fileChild nv val)"
proof -
  obtain node vals where nv: "nv = (node, vals)" by force
  have f: "\<forall>s \<in> set (n_features node). isFeature s"
    and v: "\<forall>c \<in> set vals. filedChild c \<and> wellFiled c"
    using inv nv by (simp_all add: nodeInv_def)
  show ?thesis
  proof (cases "isVALUE val \<and> isFeature (node_label val)")
    case True
    then show ?thesis using f v nv by (simp add: fileChild_def nodeInv_def)
  next
    case nf: False
    show ?thesis
    proof (cases "isVALUE val \<and> isCaseText (node_label val)")
      case True
      show ?thesis
      proof (cases "length vals > 0 \<and> \<not> truthy (node_caseFeature (last vals)) \<and> isVALUE (last vals)")
        case False
        then have "fileChild nv val = (node, vals)"
          using nf True nv by (auto simp: fileChild_def Let_def)
        then show ?thesis using f v by (simp add: nodeInv_def)
      next
        case c: True
        define prev' where "prev' = (case splitCase (last vals) of Some p \<Rightarrow> p
            | None \<Rightarrow> setCaseFeature (last vals) (node_label val))"
        have eq: "fileChild nv val = (node, butlast vals @ [prev'])"
          using nf True c nv by (simp add: fileChild_def Let_def prev'_def)
        have lv: "last vals \<in> set vals" using c by simp
        have nrp: "\<not> isROOT (last vals)" using c by (cases "last vals") auto
        have "filedChild prev' \<and> wellFiled prev'"
        proof (cases "splitCase (last vals)")
          case None
          then show ?thesis using v lv nrp
            by (simp add: prev'_def filedChild_def caseFeature_setCaseFeature wellFiled_setCaseFeature)
        next
          case (Some p)
          then show ?thesis using splitCase_filed[OF Some nrp] v lv by (simp add: prev'_def)
        qed
        moreover have "\<forall>c \<in> set (butlast vals). filedChild c \<and> wellFiled c"
          using v by (meson in_set_butlastD)
        ultimately show ?thesis using f by (auto simp: eq nodeInv_def)
      qed
    next
      case nc: False
      define val' where "val' = (case splitCase val of Some p \<Rightarrow> p | None \<Rightarrow> val)"
      have eq: "fileChild nv val = (node, vals @ [val'])"
        using nf nc nv by (auto simp: fileChild_def Let_def val'_def)
      have "filedChild val' \<and> wellFiled val'"
      proof (cases "splitCase val")
        case None
        then show ?thesis using splitCase_None[OF None] nf wf
          by (auto simp: val'_def filedChild_def)
      next
        case (Some p)
        then show ?thesis using splitCase_filed[OF Some nr] wf by (simp add: val'_def)
      qed
      then show ?thesis using f v by (auto simp: eq nodeInv_def)
    qed
  qed
qed

lemma parseValue_isVALUE: "parseValue tokens c = Inr (c', v) \<Longrightarrow> isVALUE v"
  by (auto simp: parseValue_def Let_def split: if_splits sum.splits)

definition yieldsFiled :: "(parse_error + nat \<times> SyntaxNode) option \<Rightarrow> bool" where
  "yieldsFiled r = (case r of Some (Inr (c', v)) \<Rightarrow> wellFiled v \<and> \<not> isROOT v | _ \<Rightarrow> True)"

definition keepsInv ::
  "NodeFields \<times> SyntaxNode list \<Rightarrow> (parse_error + nat \<times> NodeFields \<times> SyntaxNode list) option \<Rightarrow> bool"
  where
  "keepsInv nv r = (case r of Some (Inr (c', nv')) \<Rightarrow> nodeInv nv \<longrightarrow> nodeInv nv' | _ \<Rightarrow> True)"

lemma parseNode_filed:
  assumes C: "\<And>c nv. keepsInv nv (parseChildren fuel tokens c nv)"
  shows "yieldsFiled (parseNode fuel tokens current)"
proof (cases "parseNode fuel tokens current")
  case None
  then show ?thesis by (simp add: yieldsFiled_def)
next
  case (Some r)
  show ?thesis
  proof (cases r)
    case (Inl e)
    then show ?thesis using Some by (simp add: yieldsFiled_def)
  next
    case (Inr p)
    obtain current' v where p: "p = (current', v)" by force
    have a: "parseNode fuel tokens current = Some (Inr (current', v))" using Some Inr p by simp
    then have c: "current + 2 \<le> length tokens" "isStringToken (tokens ! (current + 1))"
      by (auto split: if_splits)
    from a c obtain sub0 sup0 current2 where
      s: "parseScript ExpectedSubscriptNode tokens (current + 2) = Inr (sub0, sup0, current2)"
      by (auto split: sum.splits)
    define node where "node = \<lparr> n_label = stringValue (tokens ! (current + 1)),
                          n_subscript = sub0, n_superscript = sup0,
                          n_features = [], n_caseFeature = None \<rparr>"
    from a c s obtain current3 node' vals where
      ch: "parseChildren fuel tokens current2 (node, []) = Some (Inr (current3, node', vals))"
      and r: "v = NODE node' vals"
      by (auto simp: Let_def node_def split: option.splits sum.splits if_splits)
    have "nodeInv (node, [])" by (simp add: nodeInv_def node_def)
    then have "nodeInv (node', vals)" using C[of "(node, [])" current2] ch by (simp add: keepsInv_def)
    then show ?thesis using a r by (simp add: yieldsFiled_def nodeInv_def)
  qed
qed

lemma parseToken_filed:
  assumes N: "\<And>c. yieldsFiled (parseNode fuel tokens c)"
  shows "yieldsFiled (parseToken (Suc fuel) tokens current)"
proof (cases "length tokens \<le> current")
  case True
  then show ?thesis by (simp add: yieldsFiled_def)
next
  case False
  have v: "yieldsFiled (Some (parseValue tokens current))"
  proof (cases "parseValue tokens current")
    case (Inl e)
    then show ?thesis by (simp add: yieldsFiled_def)
  next
    case (Inr p)
    obtain c' v where "p = (c', v)" by force
    then have "isVALUE v" using Inr parseValue_isVALUE by simp
    then show ?thesis using Inr \<open>p = (c', v)\<close> by (cases v) (simp_all add: yieldsFiled_def)
  qed
  show ?thesis using False N[of current] v
    by (cases "tokens ! current") (simp_all add: yieldsFiled_def)
qed

lemma parseChildren_filed:
  assumes T: "\<And>c. yieldsFiled (parseToken fuel tokens c)"
    and C: "\<And>c nv. keepsInv nv (parseChildren fuel tokens c nv)"
  shows "keepsInv nv (parseChildren (Suc fuel) tokens current nv)"
proof (cases "current < length tokens \<and> tokens ! current \<noteq> BRACKET_CLOSE")
  case False
  then show ?thesis by (auto simp: keepsInv_def)
next
  case True
  show ?thesis
  proof (cases "parseToken fuel tokens current")
    case None
    then show ?thesis using True by (simp add: keepsInv_def)
  next
    case (Some r)
    show ?thesis
    proof (cases r)
      case (Inl e)
      then show ?thesis using True Some by (simp add: keepsInv_def)
    next
      case (Inr p)
      obtain c2 val where p: "p = (c2, val)" by force
      have t: "parseToken fuel tokens current = Some (Inr (c2, val))" using Some Inr p by simp
      then have wf: "wellFiled val" "\<not> isROOT val" using T[of current] by (auto simp: yieldsFiled_def)
      have eq: "parseChildren (Suc fuel) tokens current nv =
          parseChildren fuel tokens c2 (fileChild nv val)" using True t by simp
      have step: "nodeInv nv \<Longrightarrow> nodeInv (fileChild nv val)"
        using wf by (simp add: fileChild_inv)
      show ?thesis unfolding eq using C[of "fileChild nv val" c2] step
        by (auto simp: keepsInv_def split: option.splits sum.splits)
    qed
  qed
qed

lemma parse_filed:
  "yieldsFiled (parseToken fuel tokens c) \<and>
   yieldsFiled (parseNode fuel tokens c) \<and>
   keepsInv nv (parseChildren fuel tokens c nv)"
proof (induction fuel arbitrary: c nv)
  case 0
  have C: "\<And>c nv. keepsInv nv (parseChildren 0 tokens c nv)" by (simp add: keepsInv_def)
  show ?case using parseNode_filed[of 0 tokens, OF C] C by (simp add: yieldsFiled_def)
next
  case (Suc fuel)
  have C: "keepsInv nv (parseChildren (Suc fuel) tokens c nv)" for c nv
    by (rule parseChildren_filed) (use Suc in blast)+
  have N: "yieldsFiled (parseNode (Suc fuel) tokens c)" for c
    by (rule parseNode_filed) (rule C)
  have T: "yieldsFiled (parseToken (Suc fuel) tokens c)" for c
    by (rule parseToken_filed) (use Suc in blast)
  show ?case using C N T by blast
qed

lemma parseLoop_filed:
  "parseLoop fuel tokens c vs = Some (Inr tree) \<Longrightarrow> (\<forall>v \<in> set vs. wellFiled v) \<Longrightarrow> wellFiled tree"
proof (induction fuel arbitrary: c vs)
  case 0
  then show ?case by simp
next
  case (Suc fuel)
  show ?case
  proof (cases "c < length tokens")
    case False
    then show ?thesis using Suc.prems by auto
  next
    case True
    then obtain c2 val where t: "parseToken fuel tokens c = Some (Inr (c2, val))"
      and r: "parseLoop fuel tokens c2 (vs @ [val]) = Some (Inr tree)"
      using Suc.prems(1) by (auto split: option.splits sum.splits)
    have "wellFiled val" using parse_filed[of fuel tokens c] t by (simp add: yieldsFiled_def)
    then show ?thesis using Suc.IH[OF r] Suc.prems(2) by simp
  qed
qed

lemma parse_wellFiled: "parse tokens = Some (Inr tree) \<Longrightarrow> wellFiled tree"
  unfolding parse_def by (erule parseLoop_filed) simp

fun nodeChildren :: "SyntaxNode \<Rightarrow> SyntaxNode list" where
  "nodeChildren (ROOT vs) = concat (map nodeChildren vs)"
| "nodeChildren (NODE f vs) = vs @ concat (map nodeChildren vs)"
| "nodeChildren (VALUE v) = []"

fun allFeatures :: "SyntaxNode \<Rightarrow> string list" where
  "allFeatures (ROOT vs) = concat (map allFeatures vs)"
| "allFeatures (NODE f vs) = n_features f @ concat (map allFeatures vs)"
| "allFeatures (VALUE v) = []"

lemma wellFiled_children: "wellFiled t \<Longrightarrow> c \<in> set (nodeChildren t) \<Longrightarrow> filedChild c"
  by (induction t arbitrary: c) auto

lemma wellFiled_features: "wellFiled t \<Longrightarrow> s \<in> set (allFeatures t) \<Longrightarrow> isFeature s"
  by (induction t arbitrary: s) auto

subsection \<open>Example inputs\<close>

text \<open>The token sequences of \<^verbatim>\<open>[NP THE CAT {Acc}]\<close>, \<^verbatim>\<open>[NP A {x} {y}]\<close>,
  \<^verbatim>\<open>[X +FEAT [Y Z]]\<close>, \<^verbatim>\<open>[X " +x {c}"]\<close>, \<^verbatim>\<open>[A] B {x} [C]\<close> and of \<^verbatim>\<open>[NP DaD {Acc}]\<close>
  with the character U+007F for \<^verbatim>\<open>D\<close>, and what \<^verbatim>\<open>parse\<close> makes of them.  At the top level \<^verbatim>\<open>parse\<close> pushes every value as \<^verbatim>\<open>parseToken\<close> returns
  it: nothing is filed, and the label of a top-level leaf keeps its case marker.\<close>

definition npTokens :: "Token list" where
  "npTokens = [BRACKET_OPEN, STRING ''NP'', STRING ''THE'', STRING ''CAT'', STRING ''{Acc}'',
               BRACKET_CLOSE]"

definition twoMarkerTokens :: "Token list" where
  "twoMarkerTokens = [BRACKET_OPEN, STRING ''NP'', STRING ''A'', STRING ''{x}'', STRING ''{y}'',
               BRACKET_CLOSE]"

definition featTokens :: "Token list" where
  "featTokens = [BRACKET_OPEN, STRING ''X'', STRING ''+FEAT'', BRACKET_OPEN, STRING ''Y'',
                 STRING ''Z'', BRACKET_CLOSE, BRACKET_CLOSE]"

definition plusTokens :: "Token list" where
  "plusTokens = [BRACKET_OPEN, STRING ''X'', QUOTED_STRING '' +x {c}'', BRACKET_CLOSE]"

definition topLevelTokens :: "Token list" where
  "topLevelTokens = [BRACKET_OPEN, STRING ''A'', BRACKET_CLOSE, STRING ''B'', STRING ''{x}'',
                     BRACKET_OPEN, STRING ''C'', BRACKET_CLOSE]"

definition delTokens :: "Token list" where
  "delTokens = [BRACKET_OPEN, STRING ''NP'', STRING [CHR 0x7F, CHR ''a'', CHR 0x7F],
                STRING ''{Acc}'', BRACKET_CLOSE]"

lemma parse_npTokens:
  "parse npTokens = Some (Inr (ROOT [NODE
      \<lparr> n_label = ''NP'', n_subscript = None, n_superscript = None, n_features = [],
        n_caseFeature = None \<rparr>
      [VALUE \<lparr> v_label = ''THE CAT'', v_subscript = None, v_superscript = None, v_arrows = [],
               v_caseFeature = Some ''{Acc}'' \<rparr>]]))"
  by code_simp

lemma parse_twoMarkerTokens:
  "parse twoMarkerTokens = Some (Inr (ROOT [NODE
      \<lparr> n_label = ''NP'', n_subscript = None, n_superscript = None, n_features = [],
        n_caseFeature = None \<rparr>
      [VALUE \<lparr> v_label = ''A {x}'', v_subscript = None, v_superscript = None, v_arrows = [],
               v_caseFeature = Some ''{y}'' \<rparr>]]))"
  by code_simp

lemma parse_featTokens:
  "parse featTokens = Some (Inr (ROOT [NODE
      \<lparr> n_label = ''X'', n_subscript = None, n_superscript = None, n_features = [''+FEAT''],
        n_caseFeature = None \<rparr>
      [plainNode ''Y'' [plainValue ''Z'']]]))"
  by code_simp

lemma parse_plusTokens:
  "parse plusTokens = Some (Inr (ROOT [plainNode ''X''
      [VALUE \<lparr> v_label = ''+x'', v_subscript = None, v_superscript = None, v_arrows = [],
               v_caseFeature = Some ''{c}'' \<rparr>]]))"
  by code_simp

lemma parse_topLevelTokens:
  "validateTokens topLevelTokens = Inr () \<and>
   parse topLevelTokens =
     Some (Inr (ROOT [plainNode ''A'' [], plainValue ''B {x}'', plainNode ''C'' []])) \<and>
   matchCase ''B {x}'' = Some (''B '', ''{x}'')"
proof -
  have "validateTokens topLevelTokens = Inr ()"
    by (simp add: validateTokens_def topLevelTokens_def countOpenBrackets_def countStep_def)
  moreover have "parse topLevelTokens =
     Some (Inr (ROOT [plainNode ''A'' [], plainValue ''B {x}'', plainNode ''C'' []]))"
    by code_simp
  moreover have "matchCase ''B {x}'' = Some (''B '', ''{x}'')" by code_simp
  ultimately show ?thesis by simp
qed

lemma parse_npTokens_catTree: "parse npTokens = Some (Inr catTree)"
  using parse_npTokens by (simp add: catTree_def plainNode_def)

lemma parse_twoMarkerTokens_caseTree: "parse twoMarkerTokens = Some (Inr caseTree)"
  using parse_twoMarkerTokens by (simp add: caseTree_def plainNode_def)

lemma parse_delTokens: "parse delTokens = Some (Inr (ROOT [plainNode ''NP'' [delLeaf]]))"
  by code_simp

lemma matchCase_twoMarker: "matchCase ''A {x}'' = Some (''A '', ''{x}'')"
  by code_simp

lemma fileChild_feature:
  assumes "isVALUE val" "isFeature (node_label val)"
  shows "fileChild (node, vals) val =
           (node\<lparr>n_features := n_features node @ [node_label val]\<rparr>, vals)"
  using assms by (simp add: fileChild_def)

lemma fileChild_split:
  assumes "\<not> (isVALUE val \<and> isFeature (node_label val))"
    "\<not> (isVALUE val \<and> isCaseText (node_label val))"
    "matchCase (node_label val) = Some (g1, g2)"
  shows "fileChild (node, vals) val =
           (node, vals @ [setCaseFeature (withLabel val (trim g1)) g2])"
  using assms by (auto simp: fileChild_def splitCase_def)

subsection \<open>Trailing case markers: claim C2\<close>

text \<open>
  Claim C2, as stated, says no leaf of a parsed tree has a label that still ends with a
  brace-delimited marker.  \<^verbatim>\<open>parseNode\<close> splits one marker off, once: for
  \<^verbatim>\<open>[NP A {x} {y}]\<close>, which the pre-check accepts, the leaf gets the case feature
  \<^verbatim>\<open>{y}\<close> and keeps the label \<^verbatim>\<open>A {x}\<close>, which the parser's own pattern still matches.
\<close>

theorem trailing_case_counterexample:
  "validateTokens twoMarkerTokens = Inr () \<and>
   parse twoMarkerTokens = Some (Inr (ROOT [NODE
      \<lparr> n_label = ''NP'', n_subscript = None, n_superscript = None, n_features = [],
        n_caseFeature = None \<rparr>
      [VALUE \<lparr> v_label = ''A {x}'', v_subscript = None, v_superscript = None, v_arrows = [],
               v_caseFeature = Some ''{y}'' \<rparr>]])) \<and>
   matchCase ''A {x}'' = Some (''A '', ''{x}'') \<and>
   isCaseText ''{x}''"
proof -
  have "validateTokens twoMarkerTokens = Inr ()"
    by (simp add: validateTokens_def twoMarkerTokens_def countOpenBrackets_def countStep_def)
  moreover have "isCaseText ''{x}''" by (simp add: isCaseText_def noLineTerminator_def isLineTerminator_def)
  ultimately show ?thesis using parse_twoMarkerTokens matchCase_twoMarker by simp
qed

text \<open>
  Claim C2, amended.  In the tree of every token sequence \<^verbatim>\<open>parse\<close> accepts, every child
  of a node (every leaf below a node in particular) whose label the pattern
  \<^verbatim>\<open>/^(.*)\s*(\{.*\})$/\<close> still matches has a case feature: a child without a case
  feature has no trailing marker left.  A child that is neither a feature leaf nor a bare
  case leaf and whose label matches the pattern is filed with the last brace group as its
  case feature and the trimmed rest as its label.  Parsing \<^verbatim>\<open>[NP THE CAT {Acc}]\<close> yields a
  single leaf with label \<^verbatim>\<open>THE CAT\<close> and case feature \<^verbatim>\<open>{Acc}\<close>.
\<close>

theorem trailing_case_split:
  "(parse tokens = Some (Inr tree) \<longrightarrow>
      (\<forall>c \<in> set (nodeChildren tree).
          node_caseFeature c = None \<longrightarrow> matchCase (node_label c) = None)) \<and>
   (\<not> (isVALUE val \<and> isFeature (node_label val)) \<and>
    \<not> (isVALUE val \<and> isCaseText (node_label val)) \<and>
    matchCase (node_label val) = Some (g1, g2) \<longrightarrow>
      fileChild (node, vals) val =
        (node, vals @ [setCaseFeature (withLabel val (trim g1)) g2])) \<and>
   parse npTokens = Some (Inr (ROOT [NODE
      \<lparr> n_label = ''NP'', n_subscript = None, n_superscript = None, n_features = [],
        n_caseFeature = None \<rparr>
      [VALUE \<lparr> v_label = ''THE CAT'', v_subscript = None, v_superscript = None, v_arrows = [],
               v_caseFeature = Some ''{Acc}'' \<rparr>]]))"
proof (intro conjI impI ballI)
  fix c
  assume "parse tokens = Some (Inr tree)" "c \<in> set (nodeChildren tree)" "node_caseFeature c = None"
  then show "matchCase (node_label c) = None"
    using parse_wellFiled wellFiled_children by (fastforce simp: filedChild_def)
next
  assume "\<not> (isVALUE val \<and> isFeature (node_label val)) \<and>
    \<not> (isVALUE val \<and> isCaseText (node_label val)) \<and>
    matchCase (node_label val) = Some (g1, g2)"
  then show "fileChild (node, vals) val =
        (node, vals @ [setCaseFeature (withLabel val (trim g1)) g2])"
    using fileChild_split by blast
next
  show "parse npTokens = Some (Inr (ROOT [NODE
      \<lparr> n_label = ''NP'', n_subscript = None, n_superscript = None, n_features = [],
        n_caseFeature = None \<rparr>
      [VALUE \<lparr> v_label = ''THE CAT'', v_subscript = None, v_superscript = None, v_arrows = [],
               v_caseFeature = Some ''{Acc}'' \<rparr>]]))" by (rule parse_npTokens)
qed

theorem trailing_case_split_witness:
  "matchCase ''Y'' = None \<and> matchCase ''Z'' = None \<and>
   fileChild (\<lparr> n_label = ''NP'', n_subscript = None, n_superscript = None, n_features = [],
               n_caseFeature = None \<rparr>, [])
     (VALUE \<lparr> v_label = ''THE CAT {Acc}'', v_subscript = None, v_superscript = None,
              v_arrows = [], v_caseFeature = None \<rparr>)
   = (\<lparr> n_label = ''NP'', n_subscript = None, n_superscript = None, n_features = [],
        n_caseFeature = None \<rparr>,
      [VALUE \<lparr> v_label = ''THE CAT'', v_subscript = None, v_superscript = None, v_arrows = [],
               v_caseFeature = Some ''{Acc}'' \<rparr>])"
proof -
  have m: "matchCase ''THE CAT {Acc}'' = Some (''THE CAT '', ''{Acc}'')" by code_simp
  have t: "trim ''THE CAT '' = ''THE CAT''" by code_simp
  have n: "\<not> isFeature ''THE CAT {Acc}''" "\<not> isCaseText ''THE CAT {Acc}''"
    by (simp_all add: isFeature_def isCaseText_def)
  note trailing_case_split [of featTokens "ROOT [NODE
      \<lparr> n_label = ''X'', n_subscript = None, n_superscript = None, n_features = [''+FEAT''],
        n_caseFeature = None \<rparr>
      [plainNode ''Y'' [plainValue ''Z'']]]" "VALUE \<lparr> v_label = ''THE CAT {Acc}'', v_subscript = None,
      v_superscript = None, v_arrows = [], v_caseFeature = None \<rparr>" "''THE CAT ''" "''{Acc}''"
      "\<lparr> n_label = ''NP'', n_subscript = None, n_superscript = None, n_features = [],
               n_caseFeature = None \<rparr>" "[]"]
  from this parse_featTokens m t n show ?thesis
    by (simp add: plainNode_def plainValue_def)
qed

subsection \<open>Feature leaves: claim C7\<close>

text \<open>
  A feature leaf is what the first test of the loop of \<^verbatim>\<open>parseNode\<close> looks for: a value
  whose label, as \<^verbatim>\<open>parseToken\<close> returned it, begins with \<^verbatim>\<open>+\<close>.  \<open>childResults\<close> lists the
  values \<^verbatim>\<open>parseToken\<close> returns in the turns of that loop, from the index where the loop
  starts.  The node and the values the loop ends with are those values filed one after the
  other; the features are the labels of the feature leaves among them, in their order, and
  the children are what filing the other values gives.
\<close>

definition isFeatureLeaf :: "SyntaxNode \<Rightarrow> bool" where
  "isFeatureLeaf value = (isVALUE value \<and> isFeature (node_label value))"

fun childResults :: "nat \<Rightarrow> Token list \<Rightarrow> nat \<Rightarrow> SyntaxNode list" where
  "childResults 0 tokens current = []"
| "childResults (Suc fuel) tokens current =
     (if current < length tokens \<and> tokens ! current \<noteq> BRACKET_CLOSE then
        (case parseToken fuel tokens current of
           Some (Inr (current', value)) \<Rightarrow> value # childResults fuel tokens current'
         | _ \<Rightarrow> [])
      else [])"

lemma parseChildren_foldl:
  "parseChildren fuel tokens current nv = Some (Inr (c', nv')) \<Longrightarrow>
     nv' = foldl fileChild nv (childResults fuel tokens current)"
proof (induction fuel arbitrary: current nv)
  case 0
  then show ?case by simp
next
  case (Suc fuel)
  show ?case
  proof (cases "current < length tokens \<and> tokens ! current \<noteq> BRACKET_CLOSE")
    case False
    then show ?thesis using Suc.prems by auto
  next
    case True
    then obtain c2 val where t: "parseToken fuel tokens current = Some (Inr (c2, val))"
      and r: "parseChildren fuel tokens c2 (fileChild nv val) = Some (Inr (c', nv'))"
      using Suc.prems by (auto split: option.splits sum.splits)
    have "childResults (Suc fuel) tokens current = val # childResults fuel tokens c2"
      using True t by simp
    then show ?thesis using Suc.IH[OF r] by simp
  qed
qed

lemma fileChild_features:
  "n_features (fst (fileChild (node, vs) val)) =
     n_features node @ (if isFeatureLeaf val then [node_label val] else [])"
  by (simp add: fileChild_def isFeatureLeaf_def Let_def)

lemma fileChild_fst:
  "fst (fileChild (node, vs) val) =
     (if isFeatureLeaf val then node\<lparr>n_features := n_features node @ [node_label val]\<rparr> else node)"
  by (simp add: fileChild_def isFeatureLeaf_def Let_def)

lemma fileChild_snd_feature: "isFeatureLeaf val \<Longrightarrow> snd (fileChild (node, vs) val) = vs"
  by (simp add: fileChild_def isFeatureLeaf_def)

lemma fileChild_snd_node: "snd (fileChild (n1, vs) val) = snd (fileChild (n2, vs) val)"
  by (simp add: fileChild_def Let_def)

lemma foldl_fileChild_node:
  "snd (foldl fileChild (n1, vs) vals) = snd (foldl fileChild (n2, vs) vals)"
proof (induction vals arbitrary: n1 n2 vs)
  case Nil
  show ?case by simp
next
  case (Cons v vals)
  obtain a1 b1 where 1: "fileChild (n1, vs) v = (a1, b1)" by force
  obtain a2 b2 where 2: "fileChild (n2, vs) v = (a2, b2)" by force
  have "b1 = b2" using fileChild_snd_node[of n1 vs v n2] 1 2 by simp
  then show ?case using Cons.IH[of a1 b1 a2] 1 2 by simp
qed

lemma foldl_fileChild_features:
  "n_features (fst (foldl fileChild (node, vs) vals)) =
     n_features node @ map node_label (filter isFeatureLeaf vals)"
proof (induction vals arbitrary: node vs)
  case Nil
  show ?case by simp
next
  case (Cons v vals)
  obtain a b where 1: "fileChild (node, vs) v = (a, b)" by force
  have "n_features a = n_features node @ (if isFeatureLeaf v then [node_label v] else [])"
    using fileChild_features[of node vs v] 1 by simp
  then show ?case using Cons.IH[of a b] 1 by simp
qed

lemma foldl_fileChild_values:
  "snd (foldl fileChild (node, vs) vals) =
     snd (foldl fileChild (node, vs) (filter (\<lambda>v. \<not> isFeatureLeaf v) vals))"
proof (induction vals arbitrary: node vs)
  case Nil
  show ?case by simp
next
  case (Cons v vals)
  obtain a b where 1: "fileChild (node, vs) v = (a, b)" by force
  show ?case
  proof (cases "isFeatureLeaf v")
    case True
    then have b: "b = vs" using fileChild_snd_feature[of v node vs] 1 by simp
    have "snd (foldl fileChild (a, vs) vals) =
        snd (foldl fileChild (a, vs) (filter (\<lambda>v. \<not> isFeatureLeaf v) vals))" by (rule Cons.IH)
    also have "\<dots> = snd (foldl fileChild (node, vs) (filter (\<lambda>v. \<not> isFeatureLeaf v) vals))"
      by (rule foldl_fileChild_node)
    finally show ?thesis using True 1 b by simp
  next
    case False
    then show ?thesis using Cons.IH[of a b] 1 by simp
  qed
qed

lemma children_of_features:
  assumes "parseChildren fuel tokens current (node, vals) = Some (Inr (c', node', vals'))"
  shows "n_features node' =
           n_features node @ map node_label (filter isFeatureLeaf (childResults fuel tokens current))"
    and "vals' = snd (foldl fileChild (node, vals)
                   (filter (\<lambda>v. \<not> isFeatureLeaf v) (childResults fuel tokens current)))"
proof -
  have e: "(node', vals') = foldl fileChild (node, vals) (childResults fuel tokens current)"
    using assms by (rule parseChildren_foldl)
  show "n_features node' =
           n_features node @ map node_label (filter isFeatureLeaf (childResults fuel tokens current))"
    using foldl_fileChild_features[of node vals "childResults fuel tokens current"] e[symmetric]
    by simp
  show "vals' = snd (foldl fileChild (node, vals)
                   (filter (\<lambda>v. \<not> isFeatureLeaf v) (childResults fuel tokens current)))"
    using foldl_fileChild_values[of node vals "childResults fuel tokens current"] e[symmetric]
    by simp
qed

lemma parseNode_children:
  assumes n: "parseNode fuel tokens current = Some (Inr (c', NODE f vs))"
    and s: "parseScript ExpectedSubscriptNode tokens (current + 2) = Inr (sub0, sup0, c2)"
  shows "n_features f = map node_label (filter isFeatureLeaf (childResults fuel tokens c2)) \<and>
         vs = snd (foldl fileChild (f, [])
                (filter (\<lambda>v. \<not> isFeatureLeaf v) (childResults fuel tokens c2)))"
proof -
  define node where "node = \<lparr> n_label = stringValue (tokens ! (current + 1)),
      n_subscript = sub0, n_superscript = sup0, n_features = [], n_caseFeature = None \<rparr>"
  from n s obtain c3 where
    c: "parseChildren fuel tokens c2 (node, []) = Some (Inr (c3, f, vs))"
    by (auto simp: Let_def node_def split: if_splits option.splits sum.splits)
  have 1: "n_features f = n_features node @
      map node_label (filter isFeatureLeaf (childResults fuel tokens c2))"
    using c by (rule children_of_features(1))
  have "vs = snd (foldl fileChild (node, [])
      (filter (\<lambda>v. \<not> isFeatureLeaf v) (childResults fuel tokens c2)))"
    using c by (rule children_of_features(2))
  then have 2: "vs = snd (foldl fileChild (f, [])
      (filter (\<lambda>v. \<not> isFeatureLeaf v) (childResults fuel tokens c2)))"
    using foldl_fileChild_node[of node "[]" _ f] by simp
  show ?thesis using 1 2 by (simp add: node_def)
qed

lemma parseNode_featTokens:
  "parseNode 10 featTokens 0 = Some (Inr (8, NODE
      \<lparr> n_label = ''X'', n_subscript = None, n_superscript = None, n_features = [''+FEAT''],
        n_caseFeature = None \<rparr>
      [plainNode ''Y'' [plainValue ''Z'']]))"
  by code_simp

lemma parseScript_featTokens:
  "parseScript ExpectedSubscriptNode featTokens (0 + 2) = Inr (None, None, 2)"
  by (simp add: parseScript_def featTokens_def)

lemma childResults_featTokens:
  "childResults 10 featTokens 2 = [plainValue ''+FEAT'', plainNode ''Y'' [plainValue ''Z'']]"
  by code_simp

lemma childResults_plusTokens:
  "childResults 10 plusTokens 2 = [plainValue '' +x {c}'']"
  by code_simp

text \<open>
  Claim C7, as stated, says that in a parsed tree no child leaf of a node has a label that
  begins with \<^verbatim>\<open>+\<close>.  \<^verbatim>\<open>parseNode\<close> tests the label as \<^verbatim>\<open>parseValue\<close> returns it, before a
  case marker is split off and the rest is trimmed: the quoted label of
  \<^verbatim>\<open>[X " +x {c}"]\<close> begins with a space, so the leaf is filed as a child, and the split
  leaves it the label \<^verbatim>\<open>+x\<close>.
\<close>

theorem plus_child_counterexample:
  "validateTokens plusTokens = Inr () \<and>
   parse plusTokens = Some (Inr (ROOT [NODE
      \<lparr> n_label = ''X'', n_subscript = None, n_superscript = None, n_features = [],
        n_caseFeature = None \<rparr>
      [VALUE \<lparr> v_label = ''+x'', v_subscript = None, v_superscript = None, v_arrows = [],
               v_caseFeature = Some ''{c}'' \<rparr>]])) \<and>
   isFeature ''+x''"
proof -
  have "validateTokens plusTokens = Inr ()"
    by (simp add: validateTokens_def plusTokens_def countOpenBrackets_def countStep_def)
  then show ?thesis using parse_plusTokens by (simp add: plainNode_def isFeature_def)
qed

text \<open>
  Claim C7, amended.  For every node \<^verbatim>\<open>parseNode\<close> returns, the features are the labels of
  the leaves among its parsed children whose label, as \<^verbatim>\<open>parseValue\<close> returned it, begins
  with \<^verbatim>\<open>+\<close>, and its children are filed from the other parsed children alone: a feature
  leaf is never added to them.  In every parsed tree the features of a node all begin with
  \<^verbatim>\<open>+\<close>, and a child leaf of a node whose label begins with \<^verbatim>\<open>+\<close> has a case feature (its
  label is what the split of the case marker left).  Parsing \<^verbatim>\<open>[X +FEAT [Y Z]]\<close> gives \<open>X\<close>
  the features \<^verbatim>\<open>["+FEAT"]\<close> and the single child \<open>Y\<close>.
\<close>

theorem feature_leaf_filed:
  "(parseNode fuel tokens current = Some (Inr (c', NODE f vs)) \<and>
    parseScript ExpectedSubscriptNode tokens (current + 2) = Inr (sub0, sup0, c2) \<longrightarrow>
      n_features f = map node_label (filter isFeatureLeaf (childResults fuel tokens c2)) \<and>
      vs = snd (foldl fileChild (f, [])
             (filter (\<lambda>v. \<not> isFeatureLeaf v) (childResults fuel tokens c2)))) \<and>
   (parse toks = Some (Inr tree) \<longrightarrow>
      (\<forall>s \<in> set (allFeatures tree). isFeature s) \<and>
      (\<forall>c \<in> set (nodeChildren tree).
          isVALUE c \<and> isFeature (node_label c) \<longrightarrow> node_caseFeature c \<noteq> None)) \<and>
   parse featTokens = Some (Inr (ROOT [NODE
      \<lparr> n_label = ''X'', n_subscript = None, n_superscript = None, n_features = [''+FEAT''],
        n_caseFeature = None \<rparr>
      [plainNode ''Y'' [plainValue ''Z'']]]))"
proof (intro conjI impI ballI)
  assume a: "parseNode fuel tokens current = Some (Inr (c', NODE f vs)) \<and>
    parseScript ExpectedSubscriptNode tokens (current + 2) = Inr (sub0, sup0, c2)"
  then have r: "n_features f = map node_label (filter isFeatureLeaf (childResults fuel tokens c2)) \<and>
         vs = snd (foldl fileChild (f, [])
                (filter (\<lambda>v. \<not> isFeatureLeaf v) (childResults fuel tokens c2)))"
    using parseNode_children by blast
  show "n_features f = map node_label (filter isFeatureLeaf (childResults fuel tokens c2))"
    using r by blast
  show "vs = snd (foldl fileChild (f, [])
             (filter (\<lambda>v. \<not> isFeatureLeaf v) (childResults fuel tokens c2)))"
    using r by blast
next
  fix s assume "parse toks = Some (Inr tree)" "s \<in> set (allFeatures tree)"
  then show "isFeature s" using parse_wellFiled wellFiled_features by blast
next
  fix c
  assume p: "parse toks = Some (Inr tree)" and c: "c \<in> set (nodeChildren tree)"
    and f: "isVALUE c \<and> isFeature (node_label c)"
  have "filedChild c" using parse_wellFiled[OF p] c by (rule wellFiled_children)
  then show "node_caseFeature c \<noteq> None" using f by (auto simp: filedChild_def)
next
  show "parse featTokens = Some (Inr (ROOT [NODE
      \<lparr> n_label = ''X'', n_subscript = None, n_superscript = None, n_features = [''+FEAT''],
        n_caseFeature = None \<rparr>
      [plainNode ''Y'' [plainValue ''Z'']]]))" by (rule parse_featTokens)
qed

theorem feature_leaf_filed_witness:
  "map node_label (filter isFeatureLeaf (childResults 10 featTokens 2)) = [''+FEAT''] \<and>
   snd (foldl fileChild
          (\<lparr> n_label = ''X'', n_subscript = None, n_superscript = None,
             n_features = [''+FEAT''], n_caseFeature = None \<rparr>, [])
          (filter (\<lambda>v. \<not> isFeatureLeaf v) (childResults 10 featTokens 2)))
     = [plainNode ''Y'' [plainValue ''Z'']] \<and>
   isFeature ''+FEAT'' \<and>
   node_caseFeature (VALUE \<lparr> v_label = ''+x'', v_subscript = None, v_superscript = None,
      v_arrows = [], v_caseFeature = Some ''{c}'' \<rparr>) \<noteq> None"
proof -
  note a = feature_leaf_filed [of 10 featTokens 0 8
      "\<lparr> n_label = ''X'', n_subscript = None, n_superscript = None, n_features = [''+FEAT''],
         n_caseFeature = None \<rparr>" "[plainNode ''Y'' [plainValue ''Z'']]" None None 2 featTokens
      "ROOT [NODE
      \<lparr> n_label = ''X'', n_subscript = None, n_superscript = None, n_features = [''+FEAT''],
        n_caseFeature = None \<rparr>
      [plainNode ''Y'' [plainValue ''Z'']]]"]
  have 1: "map node_label (filter isFeatureLeaf (childResults 10 featTokens 2)) = [''+FEAT''] \<and>
   snd (foldl fileChild
          (\<lparr> n_label = ''X'', n_subscript = None, n_superscript = None,
             n_features = [''+FEAT''], n_caseFeature = None \<rparr>, [])
          (filter (\<lambda>v. \<not> isFeatureLeaf v) (childResults 10 featTokens 2)))
     = [plainNode ''Y'' [plainValue ''Z'']]"
    using a parseNode_featTokens parseScript_featTokens by simp
  have 2: "isFeature ''+FEAT''"
    using a parse_featTokens by simp
  note b = feature_leaf_filed [of 10 featTokens 0 8
      "\<lparr> n_label = ''X'', n_subscript = None, n_superscript = None, n_features = [''+FEAT''],
         n_caseFeature = None \<rparr>" "[plainNode ''Y'' [plainValue ''Z'']]" None None 2 plusTokens
      "ROOT [plainNode ''X''
      [VALUE \<lparr> v_label = ''+x'', v_subscript = None, v_superscript = None, v_arrows = [],
               v_caseFeature = Some ''{c}'' \<rparr>]]"]
  have 3: "node_caseFeature (VALUE \<lparr> v_label = ''+x'', v_subscript = None, v_superscript = None,
      v_arrows = [], v_caseFeature = Some ''{c}'' \<rparr>) \<noteq> None"
    using b parse_plusTokens by (simp add: plainNode_def isFeature_def)
  show ?thesis using 1 2 3 by blast
qed

end
